theory Spec2Isabelle
  imports Main "HOL-Library.AList"
begin

section \<open>Python values: exceptions, list indexing\<close>

text \<open>
  The exceptions the two source files can raise: a failed \<^verbatim>\<open>assert\<close>, a list index
  out of range (also \<^verbatim>\<open>pop\<close> from an empty list), and a missing dictionary key.
  A computation that may raise returns \<open>error + 'a\<close>, with \<open>Inl\<close> for the exception.
\<close>

datatype error = AssertionError | IndexError | KeyError

text \<open>Python's \<^verbatim>\<open>xs[i]\<close>: a negative index counts from the end.\<close>

definition getitem :: "'a list \<Rightarrow> int \<Rightarrow> error + 'a" where
  "getitem xs i =
     (if 0 \<le> i \<and> i < int (length xs) then Inr (xs ! nat i)
      else if - int (length xs) \<le> i \<and> i < 0 then Inr (xs ! nat (int (length xs) + i))
      else Inl IndexError)"

text \<open>Python's \<^verbatim>\<open>xs[i] = v\<close>.\<close>

definition setitem :: "'a list \<Rightarrow> int \<Rightarrow> 'a \<Rightarrow> error + 'a list" where
  "setitem xs i v =
     (if 0 \<le> i \<and> i < int (length xs) then Inr (xs[nat i := v])
      else if - int (length xs) \<le> i \<and> i < 0 then Inr (xs[nat (int (length xs) + i) := v])
      else Inl IndexError)"

text \<open>Python's \<^verbatim>\<open>max\<close> and \<^verbatim>\<open>min\<close> of a non-empty list.\<close>

definition py_max :: "int list \<Rightarrow> int" where
  "py_max xs = foldl max (hd xs) (tl xs)"

definition py_min :: "int list \<Rightarrow> int" where
  "py_min xs = foldl min (hd xs) (tl xs)"

section \<open>vector.py\<close>

datatype Vector3D = Vector3D (vx: int) (vy: int) (vz: int)

text \<open>\<^verbatim>\<open>__add__\<close>, \<^verbatim>\<open>__rmul__\<close> (the scalar is the left operand), \<^verbatim>\<open>to_list\<close>,
  \<^verbatim>\<open>from_list\<close>.\<close>

definition add :: "Vector3D \<Rightarrow> Vector3D \<Rightarrow> Vector3D" where
  "add a b = Vector3D (vx a + vx b) (vy a + vy b) (vz a + vz b)"

definition rmul :: "int \<Rightarrow> Vector3D \<Rightarrow> Vector3D" where
  "rmul other a = Vector3D (vx a * other) (vy a * other) (vz a * other)"

definition to_list :: "Vector3D \<Rightarrow> int list" where
  "to_list a = [vx a, vy a, vz a]"

definition from_list :: "int list \<Rightarrow> error + Vector3D" where
  "from_list lst =
     (case getitem lst 0 of Inl e \<Rightarrow> Inl e | Inr a \<Rightarrow>
      case getitem lst 1 of Inl e \<Rightarrow> Inl e | Inr b \<Rightarrow>
      case getitem lst 2 of Inl e \<Rightarrow> Inl e | Inr c \<Rightarrow> Inr (Vector3D a b c))"

text \<open>
  \<^verbatim>\<open>multiply(matrix, vector)\<close>: one entry per row of the matrix, each row asserted to
  be as long as the vector (\<^verbatim>\<open>len(vector)\<close> is 3); the entries go through
  \<^verbatim>\<open>from_list\<close>.
\<close>

fun multiply_rows :: "int list list \<Rightarrow> Vector3D \<Rightarrow> error + int list" where
  "multiply_rows [] v = Inr []"
| "multiply_rows (row # rows) v =
     (if length row \<noteq> 3 then Inl AssertionError
      else case multiply_rows rows v of
             Inl e \<Rightarrow> Inl e
           | Inr r \<Rightarrow> Inr (sum_list (map (\<lambda>(a, b). a * b) (zip row (to_list v))) # r))"

definition multiply :: "int list list \<Rightarrow> Vector3D \<Rightarrow> error + Vector3D" where
  "multiply matrix v =
     (case multiply_rows matrix v of Inl e \<Rightarrow> Inl e | Inr r \<Rightarrow> from_list r)"

definition baseVectors :: "Vector3D list" where
  "baseVectors = [Vector3D 1 0 0, Vector3D 0 1 0, Vector3D 0 0 1]"

definition baseDirections :: "Vector3D list" where
  "baseDirections = [Vector3D 1 0 0, Vector3D 0 1 0, Vector3D 0 0 1,
                     Vector3D (-1) 0 0, Vector3D 0 (-1) 0, Vector3D 0 0 (-1)]"

definition rotx :: "int list list" where
  "rotx = [[1, 0, 0], [0, 0, -1], [0, 1, 0]]"

definition roty :: "int list list" where
  "roty = [[0, 0, 1], [0, 1, 0], [-1, 0, 0]]"

definition rotz :: "int list list" where
  "rotz = [[0, -1, 0], [1, 0, 0], [0, 0, 1]]"

definition mirror_yz :: "int list list" where
  "mirror_yz = [[-1, 0, 0], [0, 1, 0], [0, 0, 1]]"

section \<open>snakecube.py: the joint transition table\<close>

text \<open>
  A Python dictionary keeps its keys in insertion order: an association list, updated
  with \<^const>\<open>AList.update\<close> and read with \<^const>\<open>map_of\<close>. The source keys both
  dictionaries by \<^verbatim>\<open>str(vector)\<close>, the text \<^verbatim>\<open>Vector3D(x, y, z)\<close>, which
  determines the three integers; the model keys them by the vector.
\<close>

type_synonym ('k, 'v) dict = "('k \<times> 'v) list"

definition dict_get :: "('k, 'v) dict \<Rightarrow> 'k \<Rightarrow> error + 'v" where
  "dict_get d k = (case map_of d k of None \<Rightarrow> Inl KeyError | Some v \<Rightarrow> Inr v)"

definition N_PLANE_BASEDIR :: nat where
  "N_PLANE_BASEDIR = 4"

definition N_BASEVEC :: int where
  "N_BASEVEC = 3"

definition mapVtoRM :: "(Vector3D, int list list) dict" where
  "mapVtoRM =
     AList.update (Vector3D 0 0 1) rotz
       (AList.update (Vector3D 0 1 0) roty
         (AList.update (Vector3D 1 0 0) rotx []))"

text \<open>The inner loop \<^verbatim>\<open>for j in range(N_PLANE_BASEDIR)\<close>: each round appends the
  rotation of the last entry.\<close>

fun append_rotations :: "int list list \<Rightarrow> nat \<Rightarrow> Vector3D list \<Rightarrow> error + Vector3D list" where
  "append_rotations rotmat 0 newDirections = Inr newDirections"
| "append_rotations rotmat (Suc j) newDirections =
     (case getitem newDirections (-1) of Inl e \<Rightarrow> Inl e | Inr l \<Rightarrow>
      case multiply rotmat l of Inl e \<Rightarrow> Inl e | Inr r \<Rightarrow>
      append_rotations rotmat j (newDirections @ [r]))"

text \<open>The outer loop \<^verbatim>\<open>for i, vector in enumerate(baseVectors)\<close>.\<close>

fun makeJointDirections_loop ::
  "(nat \<times> Vector3D) list \<Rightarrow> (Vector3D, Vector3D list) dict \<Rightarrow> error + (Vector3D, Vector3D list) dict"
where
  "makeJointDirections_loop [] jd = Inr jd"
| "makeJointDirections_loop ((i, v) # rest) jd =
     (case dict_get mapVtoRM v of Inl e \<Rightarrow> Inl e | Inr rotmat \<Rightarrow>
      case getitem baseVectors ((int i + 1) mod N_BASEVEC) of Inl e \<Rightarrow> Inl e | Inr c0 \<Rightarrow>
      case append_rotations rotmat N_PLANE_BASEDIR [c0] of Inl e \<Rightarrow> Inl e | Inr newDirections \<Rightarrow>
      makeJointDirections_loop rest
        (AList.update (rmul (-1) v) newDirections (AList.update v newDirections jd)))"

definition makeJointDirections :: "error + (Vector3D, Vector3D list) dict" where
  "makeJointDirections = makeJointDirections_loop (enumerate 0 baseVectors) []"

text \<open>The module-level table \<^verbatim>\<open>jointDirections = _makeJointDirections()\<close>. The call
  raises nothing (lemma \<open>makeJointDirections_value\<close> below).\<close>

definition jointDirections :: "(Vector3D, Vector3D list) dict" where
  "jointDirections = (case makeJointDirections of Inl e \<Rightarrow> [] | Inr jd \<Rightarrow> jd)"

definition N_JNTS :: int where
  "N_JNTS = 4"

definition JOINT0 :: int where
  "JOINT0 = 0"

definition POS_USED :: int where
  "POS_USED = -1"

definition POS_FREE :: int where
  "POS_FREE = -2"

section \<open>snakecube.py: the backtracking head\<close>

record BacktrackHead =
  base :: Vector3D
  direction :: Vector3D
  old_direction :: "Vector3D option"

text \<open>\<^verbatim>\<open>BacktrackHead(base, direction)\<close>: the constructor leaves
  \<^verbatim>\<open>_old_direction\<close> unset.\<close>

definition BacktrackHead_init :: "Vector3D \<Rightarrow> Vector3D \<Rightarrow> BacktrackHead" where
  "BacktrackHead_init b d = \<lparr>base = b, direction = d, old_direction = None\<rparr>"

definition get_sign :: "BacktrackHead \<Rightarrow> int" where
  "get_sign h = (if py_max (to_list (direction h)) = 1 then 1 else -1)"

definition move :: "BacktrackHead \<Rightarrow> int \<Rightarrow> BacktrackHead" where
  "move h nsteps = h\<lparr>base := add (base h) (rmul nsteps (direction h))\<rparr>"

definition change_direction :: "BacktrackHead \<Rightarrow> error + BacktrackHead" where
  "change_direction h =
     (case dict_get jointDirections (direction h) of Inl e \<Rightarrow> Inl e | Inr ds \<Rightarrow>
      case getitem ds JOINT0 of Inl e \<Rightarrow> Inl e | Inr d \<Rightarrow>
      Inr (h\<lparr>old_direction := Some (direction h), direction := d\<rparr>))"

text \<open>\<^verbatim>\<open>rotate_to\<close>: the assertion comes first, then the two lookups.\<close>

definition rotate_to :: "BacktrackHead \<Rightarrow> int \<Rightarrow> error + BacktrackHead" where
  "rotate_to h joint_state =
     (case old_direction h of None \<Rightarrow> Inl AssertionError | Some od \<Rightarrow>
      case dict_get jointDirections od of Inl e \<Rightarrow> Inl e | Inr ds \<Rightarrow>
      case getitem ds joint_state of Inl e \<Rightarrow> Inl e | Inr d \<Rightarrow>
      Inr (h\<lparr>direction := d\<rparr>))"

section \<open>snakecube.py: the backtracking engine\<close>

record Backtrack =
  chain :: "int list"
  cubesize :: int
  head :: BacktrackHead
  pos :: int
  chainlength :: int
  cube :: "int list list list"
  paths :: "BacktrackHead list list"

definition Backtrack_init :: "int list \<Rightarrow> int \<Rightarrow> BacktrackHead \<Rightarrow> Backtrack" where
  "Backtrack_init ch cs h =
     \<lparr>chain = ch, cubesize = cs, head = h, pos = 0, chainlength = int (length ch),
      cube = replicate (nat cs) (replicate (nat cs) (replicate (nat cs) POS_FREE)),
      paths = []\<rparr>"

definition joint_wrapped :: "int \<Rightarrow> bool" where
  "joint_wrapped joint_state = (joint_state \<ge> N_JNTS)"

definition cube_get_offset :: "Backtrack \<Rightarrow> int \<Rightarrow> error + int" where
  "cube_get_offset s offset =
     (let p = add (base (head s)) (rmul offset (direction (head s))) in
      case getitem (cube s) (vx p) of Inl e \<Rightarrow> Inl e | Inr plane \<Rightarrow>
      case getitem plane (vy p) of Inl e \<Rightarrow> Inl e | Inr row \<Rightarrow>
      getitem row (vz p))"

text \<open>The rows of the cube are separate lists, so the assignment changes one cell: the
  model writes the changed row back at the indices it was read from.\<close>

definition cube_set_offset :: "Backtrack \<Rightarrow> int \<Rightarrow> int \<Rightarrow> error + Backtrack" where
  "cube_set_offset s offset v =
     (let p = add (base (head s)) (rmul offset (direction (head s))) in
      case getitem (cube s) (vx p) of Inl e \<Rightarrow> Inl e | Inr plane \<Rightarrow>
      case getitem plane (vy p) of Inl e \<Rightarrow> Inl e | Inr row \<Rightarrow>
      case setitem row (vz p) v of Inl e \<Rightarrow> Inl e | Inr row' \<Rightarrow>
      case setitem plane (vy p) row' of Inl e \<Rightarrow> Inl e | Inr plane' \<Rightarrow>
      case setitem (cube s) (vx p) plane' of Inl e \<Rightarrow> Inl e | Inr cube' \<Rightarrow>
      Inr (s\<lparr>cube := cube'\<rparr>))"

text \<open>\<^verbatim>\<open>for i in offsets: self._cube_set_offset(i, value)\<close>.\<close>

fun cube_set_offsets :: "Backtrack \<Rightarrow> int list \<Rightarrow> int \<Rightarrow> error + Backtrack" where
  "cube_set_offsets s [] v = Inr s"
| "cube_set_offsets s (i # offsets) v =
     (case cube_set_offset s i v of Inl e \<Rightarrow> Inl e | Inr s' \<Rightarrow> cube_set_offsets s' offsets v)"

text \<open>
  The two \<^verbatim>\<open>while\<close> loops of \<^verbatim>\<open>_nsteps\<close>, one per sign of the direction. Their
  state is the scanning position and the count. \<open>None\<close> is a loop that never ends.
\<close>

partial_function (option) nsteps_loop_pos :: "Backtrack \<Rightarrow> Vector3D \<Rightarrow> int \<Rightarrow> (error + int) option" where
  "nsteps_loop_pos s p nsteps =
     (if py_max (to_list (add p (direction (head s)))) < cubesize s then
        (case cube_get_offset s (nsteps + 1) of
           Inl e \<Rightarrow> Some (Inl e)
         | Inr v \<Rightarrow>
             if v = POS_FREE then nsteps_loop_pos s (add p (direction (head s))) (nsteps + 1)
             else Some (Inr nsteps))
      else Some (Inr nsteps))"

partial_function (option) nsteps_loop_neg :: "Backtrack \<Rightarrow> Vector3D \<Rightarrow> int \<Rightarrow> (error + int) option" where
  "nsteps_loop_neg s p nsteps =
     (if py_min (to_list (add p (direction (head s)))) \<ge> 0 then
        (case cube_get_offset s (nsteps + 1) of
           Inl e \<Rightarrow> Some (Inl e)
         | Inr v \<Rightarrow>
             if v = POS_FREE then nsteps_loop_neg s (add p (direction (head s))) (nsteps + 1)
             else Some (Inr nsteps))
      else Some (Inr nsteps))"

declare nsteps_loop_pos.simps [code]
declare nsteps_loop_neg.simps [code]

definition nsteps :: "Backtrack \<Rightarrow> (error + int) option" where
  "nsteps s =
     (if get_sign (head s) = 1 then nsteps_loop_pos s (base (head s)) 0
      else nsteps_loop_neg s (base (head s)) 0)"

text \<open>\<^verbatim>\<open>path.pop()\<close>: the last element and the rest, or IndexError on the empty
  list.\<close>

definition pop :: "'a list \<Rightarrow> error + ('a \<times> 'a list)" where
  "pop xs = (if xs = [] then Inl IndexError else Inr (last xs, butlast xs))"

text \<open>
  The block "restore \<^verbatim>\<open>_pos\<close>, head, and path; restore cube; pick new direction",
  which the source has twice, word for word: at the start of a subsequent run of
  \<^verbatim>\<open>_backtrack\<close> and in the branch of the loop for a wrapped joint. Here the
  assertion of \<^verbatim>\<open>rotate_to\<close> is not caught.
\<close>

definition back_up :: "Backtrack \<Rightarrow> BacktrackHead list \<Rightarrow> error + (Backtrack \<times> BacktrackHead list)" where
  "back_up s path =
     (let s1 = s\<lparr>pos := pos s - 1\<rparr> in
      case pop path of Inl e \<Rightarrow> Inl e | Inr (h, path') \<Rightarrow>
      let s2 = s1\<lparr>head := h\<rparr> in
      case getitem (chain s2) (pos s2) of Inl e \<Rightarrow> Inl e | Inr steps_to_delete \<Rightarrow>
      case cube_set_offsets s2 [1..steps_to_delete] POS_FREE of Inl e \<Rightarrow> Inl e | Inr s3 \<Rightarrow>
      case cube_get_offset s3 0 of Inl e \<Rightarrow> Inl e | Inr joint_state \<Rightarrow>
      case rotate_to (head s3) ((joint_state + 1) mod N_JNTS) of Inl e \<Rightarrow> Inl e | Inr h' \<Rightarrow>
      case cube_set_offset (s3\<lparr>head := h'\<rparr>) 0 (joint_state + 1) of Inl e \<Rightarrow> Inl e | Inr s4 \<Rightarrow>
      Inr (s4, path'))"

text \<open>
  One round of the \<^verbatim>\<open>while\<close> loop of \<^verbatim>\<open>_backtrack\<close> either leaves the method
  with \<^verbatim>\<open>None\<close> or goes on with a new engine state and path.
\<close>

datatype step = Exhausted Backtrack | Continue Backtrack "BacktrackHead list"

text \<open>The branch "the way is free": lay the slice, record the head, move, turn.\<close>

definition move_forward :: "Backtrack \<Rightarrow> BacktrackHead list \<Rightarrow> int \<Rightarrow> error + step" where
  "move_forward s path steps_needed =
     (case cube_set_offsets s [1..steps_needed - 1] POS_USED of Inl e \<Rightarrow> Inl e | Inr s1 \<Rightarrow>
      case cube_set_offset s1 steps_needed JOINT0 of Inl e \<Rightarrow> Inl e | Inr s2 \<Rightarrow>
      case change_direction (move (head s2) steps_needed) of Inl e \<Rightarrow> Inl e | Inr h' \<Rightarrow>
      Inr (Continue (s2\<lparr>head := h', pos := pos s2 + 1\<rparr>) (path @ [head s2])))"

text \<open>The branch "steps_allowed < steps_needed": only here the assertion of
  \<^verbatim>\<open>rotate_to\<close> is caught, and answered with \<^verbatim>\<open>return None\<close>.\<close>

definition try_next_joint :: "Backtrack \<Rightarrow> BacktrackHead list \<Rightarrow> int \<Rightarrow> error + step" where
  "try_next_joint s path joint_state =
     (case rotate_to (head s) ((joint_state + 1) mod N_JNTS) of
        Inl AssertionError \<Rightarrow> Inr (Exhausted s)
      | Inl e \<Rightarrow> Inl e
      | Inr h' \<Rightarrow>
          (case cube_set_offset (s\<lparr>head := h'\<rparr>) 0 (joint_state + 1) of Inl e \<Rightarrow> Inl e | Inr s1 \<Rightarrow>
           Inr (Continue s1 path)))"

text \<open>The branch "joint_state wrapped around".\<close>

definition joint_wrapped_around :: "Backtrack \<Rightarrow> BacktrackHead list \<Rightarrow> error + step" where
  "joint_wrapped_around s path =
     (if pos s = 1 then Inr (Exhausted s)
      else case back_up s path of Inl e \<Rightarrow> Inl e | Inr (s', path') \<Rightarrow> Inr (Continue s' path'))"

definition loop_body :: "Backtrack \<Rightarrow> BacktrackHead list \<Rightarrow> (error + step) option" where
  "loop_body s path =
     (case cube_get_offset s 0 of Inl e \<Rightarrow> Some (Inl e) | Inr joint_state \<Rightarrow>
      if \<not> joint_wrapped joint_state then
        (case getitem (chain s) (pos s) of Inl e \<Rightarrow> Some (Inl e) | Inr steps_needed \<Rightarrow>
         case nsteps s of None \<Rightarrow> None | Some (Inl e) \<Rightarrow> Some (Inl e) | Some (Inr steps_allowed) \<Rightarrow>
         if steps_allowed < steps_needed then Some (try_next_joint s path joint_state)
         else Some (move_forward s path steps_needed))
      else Some (joint_wrapped_around s path))"

text \<open>The loop \<^verbatim>\<open>while self._pos < self._chainlength\<close>; the result is what
  \<^verbatim>\<open>_backtrack\<close> returns (\<^verbatim>\<open>None\<close> or the path) and the engine afterwards.\<close>

partial_function (option) backtrack_loop ::
  "Backtrack \<Rightarrow> BacktrackHead list \<Rightarrow> (error + (BacktrackHead list option \<times> Backtrack)) option"
where
  "backtrack_loop s path =
     (if pos s < chainlength s then
        (case loop_body s path of
           None \<Rightarrow> None
         | Some (Inl e) \<Rightarrow> Some (Inl e)
         | Some (Inr (Exhausted s')) \<Rightarrow> Some (Inr (None, s'))
         | Some (Inr (Continue s' path')) \<Rightarrow> backtrack_loop s' path')
      else Some (Inr (Some path, s)))"

declare backtrack_loop.simps [code]

definition backtrack :: "Backtrack \<Rightarrow> (error + (BacktrackHead list option \<times> Backtrack)) option" where
  "backtrack s =
     (if pos s = 0 then
        (case cube_set_offset s 0 POS_USED of Inl e \<Rightarrow> Some (Inl e) | Inr s1 \<Rightarrow>
         backtrack_loop s1 [])
      else
        (case getitem (paths s) (-1) of Inl e \<Rightarrow> Some (Inl e) | Inr path \<Rightarrow>
         case back_up s path of Inl e \<Rightarrow> Some (Inl e) | Inr (s1, path') \<Rightarrow>
         backtrack_loop s1 path'))"

text \<open>The loop of \<^verbatim>\<open>solve\<close>: call \<^verbatim>\<open>_backtrack\<close>, append what it returns, until
  it returns \<^verbatim>\<open>None\<close>.\<close>

partial_function (option) solve_loop :: "Backtrack \<Rightarrow> (error + Backtrack) option" where
  "solve_loop s =
     (case backtrack s of
        None \<Rightarrow> None
      | Some (Inl e) \<Rightarrow> Some (Inl e)
      | Some (Inr (None, s')) \<Rightarrow> Some (Inr s')
      | Some (Inr (Some path, s')) \<Rightarrow> solve_loop (s'\<lparr>paths := paths s' @ [path]\<rparr>))"

declare solve_loop.simps [code]

text \<open>\<^verbatim>\<open>solve\<close> returns \<^verbatim>\<open>self._paths\<close>; the model returns the engine too, so that
  a second call can be made on it.\<close>

definition solve :: "Backtrack \<Rightarrow> (error + (BacktrackHead list list \<times> Backtrack)) option" where
  "solve s =
     (if paths s = [] then
        (case solve_loop s of
           None \<Rightarrow> None
         | Some (Inl e) \<Rightarrow> Some (Inl e)
         | Some (Inr s') \<Rightarrow> Some (Inr (paths s', s')))
      else Some (Inr (paths s, s)))"

section \<open>snakecube.py: the similarity check of main\<close>

text \<open>
  \<^verbatim>\<open>f = lambda x: multiply(rotz, multiply(rotz, multiply(rotx, multiply(mirror_yz, x)))).to_list()\<close>.
  In \<^verbatim>\<open>main\<close> the argument is the list of the three coordinates of a base point;
  \<^verbatim>\<open>multiply\<close> reads a list and a vector in the same way, so the model passes the
  vector.
\<close>

definition similar :: "Vector3D \<Rightarrow> error + int list" where
  "similar x =
     (case multiply mirror_yz x of Inl e \<Rightarrow> Inl e | Inr a \<Rightarrow>
      case multiply rotx a of Inl e \<Rightarrow> Inl e | Inr b \<Rightarrow>
      case multiply rotz b of Inl e \<Rightarrow> Inl e | Inr c \<Rightarrow>
      case multiply rotz c of Inl e \<Rightarrow> Inl e | Inr d \<Rightarrow> Inr (to_list d))"

text \<open>The chain of the demonstration, \<^verbatim>\<open>chain_slices\<close>.\<close>

definition reference_chain :: "int list" where
  "reference_chain = [2, 1, 1, 2, 1, 2, 1, 1, 2, 2, 1, 1, 1, 2, 2, 2, 2]"

section \<open>Notions for stating the properties\<close>

text \<open>A caller that calls \<^verbatim>\<open>solve\<close> and, when it has returned, calls it again on
  the same engine.\<close>

definition solve_twice :: "Backtrack \<Rightarrow> (error + (BacktrackHead list list \<times> Backtrack)) option" where
  "solve_twice s =
     (case solve s of
        None \<Rightarrow> None
      | Some (Inl e) \<Rightarrow> Some (Inl e)
      | Some (Inr (ps, s')) \<Rightarrow> solve s')"

text \<open>What a call returns to its caller, without the engine: \<^verbatim>\<open>self._paths\<close>, or
  the exception.\<close>

definition returned :: "(error + ('a \<times> Backtrack)) option \<Rightarrow> (error + 'a) option" where
  "returned r = map_option (map_sum id fst) r"

text \<open>The dot product of two vectors, for perpendicularity.\<close>

definition dot :: "Vector3D \<Rightarrow> Vector3D \<Rightarrow> int" where
  "dot a b = vx a * vx b + vy a * vy b + vz a * vz b"

text \<open>
  The cube seen as a function of its cells. A cell \<open>p\<close> is in the cube of size \<open>n\<close>
  when its three coordinates are in \<open>[0, n)\<close>; there the negative indices of Python play
  no role, and \<open>cell c p\<close> is the value \<^verbatim>\<open>c[p.x][p.y][p.z]\<close>. \<open>point h k\<close> is the
  cell \<open>k\<close> steps from the base of a head along its direction, the position that
  \<^verbatim>\<open>_cube_get_offset\<close> and \<^verbatim>\<open>_cube_set_offset\<close> compute.
\<close>

definition in_cube :: "int \<Rightarrow> Vector3D \<Rightarrow> bool" where
  "in_cube n p = (0 \<le> vx p \<and> vx p < n \<and> 0 \<le> vy p \<and> vy p < n \<and> 0 \<le> vz p \<and> vz p < n)"

definition wf_cube :: "int \<Rightarrow> int list list list \<Rightarrow> bool" where
  "wf_cube n c = (int (length c) = n \<and>
     (\<forall>pl \<in> set c. int (length pl) = n \<and> (\<forall>r \<in> set pl. int (length r) = n)))"

definition cell :: "int list list list \<Rightarrow> Vector3D \<Rightarrow> int" where
  "cell c p = c ! nat (vx p) ! nat (vy p) ! nat (vz p)"

definition cube_upd :: "int list list list \<Rightarrow> Vector3D \<Rightarrow> int \<Rightarrow> int list list list" where
  "cube_upd c p v =
     c[nat (vx p) := (c ! nat (vx p))[nat (vy p) := (c ! nat (vx p) ! nat (vy p))[nat (vz p) := v]]]"

definition point :: "BacktrackHead \<Rightarrow> int \<Rightarrow> Vector3D" where
  "point h k = add (base h) (rmul k (direction h))"

text \<open>
  The cells a path sweeps when its snapshots are replayed over the chain: the base of
  the first snapshot, then for each snapshot the cells at the offsets 1 to the chain
  entry from its base along its direction. These are the cells the engine marks when it
  lays the slices. The cell at offset 0 of a slice is the starting cell or the last
  cell of the slice before it, so it is listed once.
\<close>

definition slice_cells :: "BacktrackHead \<Rightarrow> int \<Rightarrow> Vector3D list" where
  "slice_cells h n = map (point h) [1..n]"

fun slices :: "BacktrackHead list \<Rightarrow> int list \<Rightarrow> Vector3D list" where
  "slices [] ch = []"
| "slices (h # hs) [] = []"
| "slices (h # hs) (c # cs) = slice_cells h c @ slices hs cs"

definition swept_cells :: "BacktrackHead list \<Rightarrow> int list \<Rightarrow> Vector3D list" where
  "swept_cells p ch = (case p of [] \<Rightarrow> [] | h # hs \<Rightarrow> base h # slices p ch)"

text \<open>A path is linked when every snapshot starts where the slice before it ends;
  \<open>e\<close> is where the last slice ends.\<close>

fun linked :: "Vector3D \<Rightarrow> BacktrackHead list \<Rightarrow> int list \<Rightarrow> Vector3D \<Rightarrow> bool" where
  "linked b [] ch e = (e = b)"
| "linked b (h # hs) [] e = False"
| "linked b (h # hs) (c # cs) e = (base h = b \<and> linked (point h c) hs cs e)"

text \<open>The first \<open>m\<close> cells in front of the head are in the cube and free.\<close>

definition free_run :: "int \<Rightarrow> Backtrack \<Rightarrow> int \<Rightarrow> bool" where
  "free_run n s m = (\<forall>k. 1 \<le> k \<and> k \<le> m \<longrightarrow>
      in_cube n (point (head s) k) \<and> cell (cube s) (point (head s) k) = POS_FREE)"

text \<open>
  Invariants of the search. \<open>len_inv\<close>: the progress counter is the length of the
  path. \<open>solve_inv\<close>: between two calls of \<^verbatim>\<open>_backtrack\<close> the counter is 0 or the
  length of the chain, and every stored path has that length. \<open>empty_chain_inv\<close>: the
  state of an engine with the empty chain. \<open>occ_inv\<close>: the path is linked, the cells
  it sweeps are distinct cells of the cube, and none of them is marked free.
  \<open>occ_pre\<close>: the same between two calls of \<^verbatim>\<open>_backtrack\<close>.
\<close>

definition len_inv :: "int list \<Rightarrow> BacktrackHead list list \<Rightarrow> Backtrack \<Rightarrow> BacktrackHead list \<Rightarrow> bool" where
  "len_inv ch ps s path =
     (chain s = ch \<and> chainlength s = int (length ch) \<and> paths s = ps
      \<and> pos s = int (length path) \<and> pos s \<le> chainlength s)"

definition solve_inv :: "int list \<Rightarrow> Backtrack \<Rightarrow> bool" where
  "solve_inv ch s =
     (chain s = ch \<and> chainlength s = int (length ch)
      \<and> (\<forall>p \<in> set (paths s). length p = length ch)
      \<and> (pos s = 0 \<or> pos s = chainlength s \<and> paths s \<noteq> []))"

definition empty_chain_inv :: "int \<Rightarrow> Backtrack \<Rightarrow> bool" where
  "empty_chain_inv n s =
     (pos s = 0 \<and> chainlength s = 0 \<and> wf_cube n (cube s) \<and> in_cube n (base (head s)))"

definition occ_inv ::
  "int \<Rightarrow> Vector3D \<Rightarrow> int list \<Rightarrow> BacktrackHead list list \<Rightarrow> Backtrack \<Rightarrow> BacktrackHead list \<Rightarrow> bool"
where
  "occ_inv n b0 ch ps s path =
     (len_inv ch ps s path \<and> cubesize s = n \<and> wf_cube n (cube s)
      \<and> linked b0 path ch (base (head s))
      \<and> distinct (b0 # slices path ch)
      \<and> (\<forall>p \<in> set (b0 # slices path ch). in_cube n p \<and> -1 \<le> cell (cube s) p))"

definition occupancy_ok :: "int \<Rightarrow> int list \<Rightarrow> BacktrackHead list \<Rightarrow> bool" where
  "occupancy_ok n ch p =
     (distinct (swept_cells p ch) \<and> (\<forall>c \<in> set (swept_cells p ch). in_cube n c)
      \<and> base ` set p \<subseteq> set (swept_cells p ch))"

definition occ_pre :: "int \<Rightarrow> Vector3D \<Rightarrow> int list \<Rightarrow> Backtrack \<Rightarrow> bool" where
  "occ_pre n b0 ch s =
     (solve_inv ch s \<and> (\<forall>p \<in> set (paths s). occupancy_ok n ch p) \<and>
      (if pos s = 0 then cubesize s = n \<and> wf_cube n (cube s) \<and> base (head s) = b0 \<and> in_cube n b0
       else occ_inv n b0 ch (paths s) s (last (paths s))))"

text \<open>
  An engine with chain [1, 1, 2] in the cube of size 2, after the first two slices were
  laid from (0,0,0) along x and then y, and all four orientations of the third slice
  were tried: the joint at (1,1,0) holds 4.
\<close>

definition wrapped_engine :: Backtrack where
  "wrapped_engine =
     \<lparr>chain = [1, 1, 2], cubesize = 2,
      head = \<lparr>base = Vector3D 1 1 0, direction = Vector3D 0 0 1,
               old_direction = Some (Vector3D 0 1 0)\<rparr>,
      pos = 2, chainlength = 3,
      cube = [[[-1, -2], [-2, -2]], [[0, -2], [4, -2]]],
      paths = []\<rparr>"

definition wrapped_path :: "BacktrackHead list" where
  "wrapped_path =
     [\<lparr>base = Vector3D 0 0 0, direction = Vector3D 1 0 0, old_direction = None\<rparr>,
      \<lparr>base = Vector3D 1 0 0, direction = Vector3D 0 1 0, old_direction = Some (Vector3D 1 0 0)\<rparr>]"

text \<open>\<open>k\<close> rounds of the loop of \<^verbatim>\<open>_backtrack\<close>, none of which leaves the
  method.\<close>

fun rounds :: "nat \<Rightarrow> Backtrack \<Rightarrow> BacktrackHead list \<Rightarrow> (Backtrack \<times> BacktrackHead list) option" where
  "rounds 0 s path = Some (s, path)"
| "rounds (Suc k) s path =
     (if pos s < chainlength s then
        (case loop_body s path of
           Some (Inr (Continue s' path')) \<Rightarrow> rounds k s' path'
         | _ \<Rightarrow> None)
      else None)"

section \<open>The joint transition table\<close>

lemma makeJointDirections_value:
  "makeJointDirections = Inr
  [(Vector3D 1 0 0, [Vector3D 0 1 0, Vector3D 0 0 1, Vector3D 0 (-1) 0, Vector3D 0 0 (-1), Vector3D 0 1 0]),
   (Vector3D (-1) 0 0, [Vector3D 0 1 0, Vector3D 0 0 1, Vector3D 0 (-1) 0, Vector3D 0 0 (-1), Vector3D 0 1 0]),
   (Vector3D 0 1 0, [Vector3D 0 0 1, Vector3D 1 0 0, Vector3D 0 0 (-1), Vector3D (-1) 0 0, Vector3D 0 0 1]),
   (Vector3D 0 (-1) 0, [Vector3D 0 0 1, Vector3D 1 0 0, Vector3D 0 0 (-1), Vector3D (-1) 0 0, Vector3D 0 0 1]),
   (Vector3D 0 0 1, [Vector3D 1 0 0, Vector3D 0 1 0, Vector3D (-1) 0 0, Vector3D 0 (-1) 0, Vector3D 1 0 0]),
   (Vector3D 0 0 (-1), [Vector3D 1 0 0, Vector3D 0 1 0, Vector3D (-1) 0 0, Vector3D 0 (-1) 0, Vector3D 1 0 0])]"
  by code_simp

lemma jointDirections_value:
  "jointDirections =
  [(Vector3D 1 0 0, [Vector3D 0 1 0, Vector3D 0 0 1, Vector3D 0 (-1) 0, Vector3D 0 0 (-1), Vector3D 0 1 0]),
   (Vector3D (-1) 0 0, [Vector3D 0 1 0, Vector3D 0 0 1, Vector3D 0 (-1) 0, Vector3D 0 0 (-1), Vector3D 0 1 0]),
   (Vector3D 0 1 0, [Vector3D 0 0 1, Vector3D 1 0 0, Vector3D 0 0 (-1), Vector3D (-1) 0 0, Vector3D 0 0 1]),
   (Vector3D 0 (-1) 0, [Vector3D 0 0 1, Vector3D 1 0 0, Vector3D 0 0 (-1), Vector3D (-1) 0 0, Vector3D 0 0 1]),
   (Vector3D 0 0 1, [Vector3D 1 0 0, Vector3D 0 1 0, Vector3D (-1) 0 0, Vector3D 0 (-1) 0, Vector3D 1 0 0]),
   (Vector3D 0 0 (-1), [Vector3D 1 0 0, Vector3D 0 1 0, Vector3D (-1) 0 0, Vector3D 0 (-1) 0, Vector3D 1 0 0])]"
  by (simp add: jointDirections_def makeJointDirections_value)

lemma mapVtoRM_value:
  "mapVtoRM = [(Vector3D 1 0 0, rotx), (Vector3D 0 1 0, roty), (Vector3D 0 0 1, rotz)]"
  by (simp add: mapVtoRM_def)

lemma multiply_3x3:
  "multiply [[a1, a2, a3], [b1, b2, b3], [c1, c2, c3]] (Vector3D p q r) =
     Inr (Vector3D (a1 * p + a2 * q + a3 * r) (b1 * p + b2 * q + b3 * r) (c1 * p + c2 * q + c3 * r))"
  by (simp add: multiply_def from_list_def getitem_def to_list_def)

text \<open>
  C7. The table has exactly the six base directions as its keys, each once, and the
  positive and the negative direction of an axis hold the same list; but every list has
  five entries, not four: the loop \<^verbatim>\<open>for j in range(N_PLANE_BASEDIR)\<close> appends four
  rotations to the one entry the list starts with, so the fifth entry is the first one
  again.
\<close>

theorem jointDirections_five_entries:
  "map fst jointDirections =
     [Vector3D 1 0 0, Vector3D (-1) 0 0, Vector3D 0 1 0, Vector3D 0 (-1) 0,
      Vector3D 0 0 1, Vector3D 0 0 (-1)]
   \<and> set (map fst jointDirections) = set baseDirections
   \<and> map (\<lambda>kv. length (snd kv)) jointDirections = [5, 5, 5, 5, 5, 5]
   \<and> dict_get jointDirections (Vector3D 1 0 0) = dict_get jointDirections (Vector3D (-1) 0 0)
   \<and> dict_get jointDirections (Vector3D 0 1 0) = dict_get jointDirections (Vector3D 0 (-1) 0)
   \<and> dict_get jointDirections (Vector3D 0 0 1) = dict_get jointDirections (Vector3D 0 0 (-1))
   \<and> dict_get jointDirections (Vector3D 1 0 0) =
       Inr [Vector3D 0 1 0, Vector3D 0 0 1, Vector3D 0 (-1) 0, Vector3D 0 0 (-1), Vector3D 0 1 0]"
  by (simp add: jointDirections_value baseDirections_def dict_get_def) blast

text \<open>
  C8. The keys of the table are the three base vectors, each followed by its negative.
  For every key \<open>k\<close>, with \<open>rotmat\<close> the rotation matrix \<^verbatim>\<open>mapVtoRM\<close> has for the
  base vector of its axis, the list of \<open>k\<close> is candidate 0 followed by its four
  successive rotations: every entry after the first is the rotation of the entry before
  it, and every entry has dot product zero with the key. But the list has five entries,
  and the fifth, candidate 0 rotated four times, is candidate 0 again: the entries of
  the list are not pairwise distinct; only the entries 0 to 3 are.
\<close>

theorem table_fifth_candidate_repeats:
  "map fst jointDirections = concat (map (\<lambda>v. [v, rmul (-1) v]) baseVectors)
   \<and> list_all (\<lambda>v.
        case dict_get mapVtoRM v of
          Inl e \<Rightarrow> False
        | Inr rotmat \<Rightarrow>
            list_all (\<lambda>k.
              case dict_get jointDirections k of
                Inl e \<Rightarrow> False
              | Inr ds \<Rightarrow>
                  length ds = 5
                \<and> append_rotations rotmat 4 [ds ! 0] = Inr ds
                \<and> list_all (\<lambda>i. multiply rotmat (ds ! (i - 1)) = Inr (ds ! i)) [1..<5]
                \<and> ds ! 4 = ds ! 0
                \<and> \<not> distinct ds
                \<and> distinct (take 4 ds)
                \<and> list_all (\<lambda>d. dot k d = 0) ds)
              [v, rmul (-1) v])
        baseVectors"
  by code_simp

section \<open>Runs of the engine on small chains\<close>

text \<open>
  C5. With chain [1], cube size 1 and the head at (0,0,0) looking along x,
  \<^verbatim>\<open>solve\<close> does not return one solution: a chain entry of 1 is a slice that takes
  the head one cell forward, and the cube has no second cell, so the first probe fails,
  \<^verbatim>\<open>rotate_to\<close> asserts, and \<^verbatim>\<open>solve\<close> returns the empty list.
\<close>

theorem scenario_A_no_solution:
  "returned (solve (Backtrack_init [1] 1 (BacktrackHead_init (Vector3D 0 0 0) (Vector3D 1 0 0))))
     = Some (Inr [])"
  by code_simp

theorem scenario_A_not_one_solution:
  "map_option (map_sum id length)
     (returned (solve (Backtrack_init [1] 1 (BacktrackHead_init (Vector3D 0 0 0) (Vector3D 1 0 0)))))
     \<noteq> Some (Inr 1)"
  by code_simp

text \<open>
  C2. With chain [1] and cube size 2 the first call of \<^verbatim>\<open>_backtrack\<close> returns a
  solution. The second call restores the head of that solution, which is the starting
  head, and calls \<^verbatim>\<open>rotate_to\<close> on it outside the \<^verbatim>\<open>try\<close>: the AssertionError
  leaves \<^verbatim>\<open>solve\<close>.
\<close>

theorem unrotated_head_propagates:
  "returned (solve (Backtrack_init [1] 2 (BacktrackHead_init (Vector3D 0 0 0) (Vector3D 1 0 0))))
     = Some (Inl AssertionError)"
  by code_simp

text \<open>When \<^verbatim>\<open>_paths\<close> is not empty, \<^verbatim>\<open>solve\<close> changes nothing and returns it.\<close>

lemma solve_already_solved: "paths s \<noteq> [] \<Longrightarrow> solve s = Some (Inr (paths s, s))"
  by (simp add: solve_def)

text \<open>
  C3. With chain [1, 2] and cube size 2 the first slice fits and the second never does:
  \<^verbatim>\<open>solve\<close> returns the empty list with \<^verbatim>\<open>_pos\<close> at 1. A second call finds
  \<^verbatim>\<open>_paths\<close> empty, searches again, and \<^verbatim>\<open>_backtrack\<close> reads
  \<^verbatim>\<open>self._paths[-1]\<close>: IndexError.
\<close>

theorem second_solve_raises:
  "returned (solve (Backtrack_init [1, 2] 2 (BacktrackHead_init (Vector3D 0 0 0) (Vector3D 1 0 0))))
     = Some (Inr [])
   \<and> returned (solve_twice (Backtrack_init [1, 2] 2 (BacktrackHead_init (Vector3D 0 0 0) (Vector3D 1 0 0))))
     = Some (Inl IndexError)"
  by code_simp

section \<open>The cube as a function of its cells\<close>

lemma getitem_in: "0 \<le> i \<Longrightarrow> i < int (length xs) \<Longrightarrow> getitem xs i = Inr (xs ! nat i)"
  by (simp add: getitem_def)

lemma setitem_in: "0 \<le> i \<Longrightarrow> i < int (length xs) \<Longrightarrow> setitem xs i v = Inr (xs[nat i := v])"
  by (simp add: setitem_def)

lemma getitem_last: "xs \<noteq> [] \<Longrightarrow> getitem xs (-1) = Inr (last xs)"
  by (cases xs rule: rev_cases) (auto simp: getitem_def nth_append)

lemma wf_cube_plane:
  "wf_cube n c \<Longrightarrow> 0 \<le> i \<Longrightarrow> i < n \<Longrightarrow> int (length (c ! nat i)) = n"
  by (auto simp: wf_cube_def)

lemma wf_cube_row:
  "wf_cube n c \<Longrightarrow> 0 \<le> i \<Longrightarrow> i < n \<Longrightarrow> 0 \<le> j \<Longrightarrow> j < n \<Longrightarrow> int (length (c ! nat i ! nat j)) = n"
proof -
  assume a: "wf_cube n c" "0 \<le> i" "i < n" "0 \<le> j" "j < n"
  then have "c ! nat i \<in> set c" by (auto simp: wf_cube_def)
  moreover have "int (length (c ! nat i)) = n" using a by (rule_tac wf_cube_plane)
  then have "c ! nat i ! nat j \<in> set (c ! nat i)" using a by auto
  ultimately show ?thesis using a by (auto simp: wf_cube_def)
qed

lemma wf_cube_replicate:
  "0 \<le> n \<Longrightarrow> wf_cube n (replicate (nat n) (replicate (nat n) (replicate (nat n) v)))"
  by (simp add: wf_cube_def)

lemma cube_get_offset_in:
  assumes "wf_cube n (cube s)" "in_cube n (point (head s) k)"
  shows "cube_get_offset s k = Inr (cell (cube s) (point (head s) k))"
proof -
  let ?p = "point (head s) k"
  have b: "0 \<le> vx ?p" "vx ?p < n" "0 \<le> vy ?p" "vy ?p < n" "0 \<le> vz ?p" "vz ?p < n"
    using assms(2) by (simp_all add: in_cube_def)
  have l0: "int (length (cube s)) = n" using assms(1) by (simp add: wf_cube_def)
  have l1: "int (length (cube s ! nat (vx ?p))) = n" using assms(1) b by (simp add: wf_cube_plane)
  have l2: "int (length (cube s ! nat (vx ?p) ! nat (vy ?p))) = n"
    using assms(1) b by (simp add: wf_cube_row)
  show ?thesis
    using b l0 l1 l2 by (simp add: cube_get_offset_def Let_def point_def [symmetric] getitem_in cell_def)
qed

lemma cube_set_offset_in:
  assumes "wf_cube n (cube s)" "in_cube n (point (head s) k)"
  shows "cube_set_offset s k v = Inr (s\<lparr>cube := cube_upd (cube s) (point (head s) k) v\<rparr>)"
proof -
  let ?p = "point (head s) k"
  have b: "0 \<le> vx ?p" "vx ?p < n" "0 \<le> vy ?p" "vy ?p < n" "0 \<le> vz ?p" "vz ?p < n"
    using assms(2) by (simp_all add: in_cube_def)
  have l0: "int (length (cube s)) = n" using assms(1) by (simp add: wf_cube_def)
  have l1: "int (length (cube s ! nat (vx ?p))) = n" using assms(1) b by (simp add: wf_cube_plane)
  have l2: "int (length (cube s ! nat (vx ?p) ! nat (vy ?p))) = n"
    using assms(1) b by (simp add: wf_cube_row)
  show ?thesis
    using b l0 l1 l2
    by (simp add: cube_set_offset_def Let_def point_def [symmetric] getitem_in setitem_in cube_upd_def)
qed

lemma wf_cube_upd:
  assumes "wf_cube n c" "in_cube n p"
  shows "wf_cube n (cube_upd c p v)"
proof -
  have b: "0 \<le> vx p" "vx p < n" "0 \<le> vy p" "vy p < n" "0 \<le> vz p" "vz p < n"
    using assms(2) by (simp_all add: in_cube_def)
  have l0: "int (length c) = n" using assms(1) by (simp add: wf_cube_def)
  have l1: "int (length (c ! nat (vx p))) = n" using assms(1) b by (simp add: wf_cube_plane)
  have l2: "int (length (c ! nat (vx p) ! nat (vy p))) = n"
    using assms(1) b by (simp add: wf_cube_row)
  have m1: "c ! nat (vx p) \<in> set c" using b l0 by simp
  let ?row = "(c ! nat (vx p) ! nat (vy p))[nat (vz p) := v]"
  let ?plane = "(c ! nat (vx p))[nat (vy p) := ?row]"
  have rows: "\<forall>r \<in> set ?plane. int (length r) = n"
  proof
    fix r assume "r \<in> set ?plane"
    then have "r \<in> insert ?row (set (c ! nat (vx p)))"
      using set_update_subset_insert by fastforce
    then show "int (length r) = n" using l2 m1 assms(1) by (auto simp: wf_cube_def)
  qed
  have "\<forall>pl \<in> set (cube_upd c p v). int (length pl) = n \<and> (\<forall>r \<in> set pl. int (length r) = n)"
  proof
    fix pl assume "pl \<in> set (cube_upd c p v)"
    then have "pl \<in> insert ?plane (set c)"
      unfolding cube_upd_def using set_update_subset_insert by fastforce
    then show "int (length pl) = n \<and> (\<forall>r \<in> set pl. int (length r) = n)"
    proof
      assume "pl = ?plane" then show ?thesis using rows l1 by simp
    next
      assume "pl \<in> set c" then show ?thesis using assms(1) by (simp add: wf_cube_def)
    qed
  qed
  moreover have "int (length (cube_upd c p v)) = n" using l0 by (simp add: cube_upd_def)
  ultimately show ?thesis unfolding wf_cube_def by blast
qed

lemma cell_cube_upd:
  assumes "wf_cube n c" "in_cube n p" "in_cube n q"
  shows "cell (cube_upd c p v) q = (if q = p then v else cell c q)"
proof -
  have b: "0 \<le> vx p" "vx p < n" "0 \<le> vy p" "vy p < n" "0 \<le> vz p" "vz p < n"
    using assms(2) by (simp_all add: in_cube_def)
  have bq: "0 \<le> vx q" "vx q < n" "0 \<le> vy q" "vy q < n" "0 \<le> vz q" "vz q < n"
    using assms(3) by (simp_all add: in_cube_def)
  have l0: "int (length c) = n" using assms(1) by (simp add: wf_cube_def)
  have l1: "int (length (c ! nat (vx p))) = n" using assms(1) b by (simp add: wf_cube_plane)
  have l2: "int (length (c ! nat (vx p) ! nat (vy p))) = n"
    using assms(1) b by (simp add: wf_cube_row)
  have n0: "nat (vx p) < length c" using b l0 by linarith
  have n1: "nat (vy p) < length (c ! nat (vx p))" using b l1 by linarith
  have n2: "nat (vz p) < length (c ! nat (vx p) ! nat (vy p))" using b l2 by linarith
  have e: "(q = p) = (nat (vx q) = nat (vx p) \<and> nat (vy q) = nat (vy p) \<and> nat (vz q) = nat (vz p))"
    using b bq by (cases p, cases q) auto
  show ?thesis
    unfolding cell_def cube_upd_def e
    using n0 n1 n2 by (auto simp: nth_list_update)
qed

lemma cube_set_offset_frame:
  "cube_set_offset s k v = Inr s' \<Longrightarrow> \<exists>c'. s' = s\<lparr>cube := c'\<rparr>"
  by (auto simp: cube_set_offset_def Let_def split: sum.splits)

lemma cube_set_offsets_frame:
  "cube_set_offsets s ks v = Inr s' \<Longrightarrow> \<exists>c'. s' = s\<lparr>cube := c'\<rparr>"
proof (induction ks arbitrary: s)
  case Nil
  then show ?case by (auto intro: exI [of _ "cube s"])
next
  case (Cons k ks)
  from Cons.prems obtain s1 where s1: "cube_set_offset s k v = Inr s1" "cube_set_offsets s1 ks v = Inr s'"
    by (auto split: sum.splits)
  from cube_set_offset_frame [OF s1(1)] obtain c1 where "s1 = s\<lparr>cube := c1\<rparr>" by blast
  moreover from Cons.IH [OF s1(2)] obtain c2 where "s' = s1\<lparr>cube := c2\<rparr>" by blast
  ultimately show ?case by auto
qed

lemma cube_set_offsets_in:
  assumes "wf_cube n (cube s)" "\<forall>k \<in> set ks. in_cube n (point (head s) k)"
  shows "\<exists>c'. cube_set_offsets s ks v = Inr (s\<lparr>cube := c'\<rparr>) \<and> wf_cube n c'
           \<and> (\<forall>q. in_cube n q \<longrightarrow>
                 cell c' q = (if q \<in> point (head s) ` set ks then v else cell (cube s) q))"
  using assms
proof (induction ks arbitrary: s)
  case Nil
  then show ?case by (auto intro: exI [of _ "cube s"])
next
  case (Cons k ks)
  let ?s1 = "s\<lparr>cube := cube_upd (cube s) (point (head s) k) v\<rparr>"
  have s1: "cube_set_offset s k v = Inr ?s1"
    using Cons.prems by (simp add: cube_set_offset_in)
  have w1: "wf_cube n (cube ?s1)" using Cons.prems by (simp add: wf_cube_upd)
  have "\<forall>k \<in> set ks. in_cube n (point (head ?s1) k)" using Cons.prems by simp
  from Cons.IH [OF w1 this] obtain c' where
    c': "cube_set_offsets ?s1 ks v = Inr (?s1\<lparr>cube := c'\<rparr>)" "wf_cube n c'"
      "\<forall>q. in_cube n q \<longrightarrow> cell c' q = (if q \<in> point (head ?s1) ` set ks then v else cell (cube ?s1) q)"
    by blast
  have "\<forall>q. in_cube n q \<longrightarrow>
                 cell c' q = (if q \<in> point (head s) ` set (k # ks) then v else cell (cube s) q)"
    using c'(3) Cons.prems by (auto simp: cell_cube_upd)
  then show ?case using s1 c'(1,2) by (intro exI [of _ c']) simp
qed

lemma point_0 [simp]: "point h 0 = base h"
  by (simp add: point_def add_def rmul_def)

section \<open>Invariant rules for the loops of the engine\<close>

text \<open>
  What holds when a loop has returned: an invariant that every round keeps holds at the
  end. Nothing is said here about a loop that does not return.
\<close>

lemma backtrack_loop_rule:
  assumes run: "backtrack_loop s path = Some (Inr (r, s'))"
    and init: "I s path"
    and step: "\<And>s path s1 path1. I s path \<Longrightarrow> pos s < chainlength s \<Longrightarrow>
                 loop_body s path = Some (Inr (Continue s1 path1)) \<Longrightarrow> I s1 path1"
    and exh: "\<And>s path s1. I s path \<Longrightarrow> pos s < chainlength s \<Longrightarrow>
                 loop_body s path = Some (Inr (Exhausted s1)) \<Longrightarrow> E s1"
  shows "case r of Some p \<Rightarrow> I s' p \<and> \<not> pos s' < chainlength s' | None \<Rightarrow> E s'"
proof -
  let ?C = "case r of Some p \<Rightarrow> I s' p \<and> \<not> pos s' < chainlength s' | None \<Rightarrow> E s'"
  have "(Inr (r, s') :: error + (BacktrackHead list option \<times> Backtrack)) = Inr (r, s')
          \<longrightarrow> I s path \<longrightarrow> ?C"
  proof (rule backtrack_loop.raw_induct
      [where P = "\<lambda>s path y. y = Inr (r, s') \<longrightarrow> I s path \<longrightarrow> ?C", OF _ run], goal_cases)
    case (1 f s path y)
    show ?case
    proof (intro impI)
      assume y: "y = Inr (r, s')" and i: "I s path"
      show ?C
      proof (cases "pos s < chainlength s")
        case False
        with 1(2) y have "r = Some path" "s' = s" by auto
        then show ?thesis using False i by simp
      next
        case True
        from 1(2) y True consider
            (ex) "loop_body s path = Some (Inr (Exhausted s'))" "r = None"
          | (co) s1 path1 where "loop_body s path = Some (Inr (Continue s1 path1))"
              "f s1 path1 = Some (Inr (r, s'))"
          by (auto split: option.splits sum.splits step.splits)
        then show ?thesis
        proof cases
          case ex
          then show ?thesis using exh [OF i True ex(1)] by simp
        next
          case co
          from step [OF i True co(1)] have "I s1 path1" .
          with 1(1) [OF co(2)] show ?thesis by simp
        qed
      qed
    qed
  qed
  with init show ?thesis by simp
qed

lemma solve_loop_rule:
  assumes run: "solve_loop s = Some (Inr s')"
    and init: "J s"
    and step: "\<And>s p s1. J s \<Longrightarrow> backtrack s = Some (Inr (Some p, s1)) \<Longrightarrow>
                 J (s1\<lparr>paths := paths s1 @ [p]\<rparr>)"
    and fin: "\<And>s s1. J s \<Longrightarrow> backtrack s = Some (Inr (None, s1)) \<Longrightarrow> R s1"
  shows "R s'"
proof -
  have "(Inr s' :: error + Backtrack) = Inr s' \<longrightarrow> J s \<longrightarrow> R s'"
  proof (rule solve_loop.raw_induct
      [where P = "\<lambda>s y. y = Inr s' \<longrightarrow> J s \<longrightarrow> R s'", OF _ run], goal_cases)
    case (1 f s y)
    show ?case
    proof (intro impI)
      assume y: "y = Inr s'" and j: "J s"
      from 1(2) y consider
          (fin) "backtrack s = Some (Inr (None, s'))"
        | (more) p s1 where "backtrack s = Some (Inr (Some p, s1))"
            "f (s1\<lparr>paths := paths s1 @ [p]\<rparr>) = Some (Inr s')"
        by (auto split: option.splits sum.splits)
      then show "R s'"
      proof cases
        case fin
        with j show ?thesis by (rule assms(4))
      next
        case more
        from step [OF j more(1)] 1(1) [OF more(2)] show ?thesis by simp
      qed
    qed
  qed
  with init show ?thesis by simp
qed

lemma loop_body_exhausted:
  "loop_body s path = Some (Inr (Exhausted s1)) \<Longrightarrow> s1 = s"
  by (auto simp: loop_body_def joint_wrapped_around_def try_next_joint_def move_forward_def
           split: sum.splits option.splits if_splits prod.splits error.splits)

lemma returned_Inr: "returned r = Some (Inr x) \<Longrightarrow> \<exists>s'. r = Some (Inr (x, s'))"
  by (cases r) (auto simp: returned_def map_sum_def split: sum.splits)

section \<open>The empty chain\<close>

lemma backtrack_empty_chain:
  assumes "empty_chain_inv n s"
  shows "backtrack s = Some (Inr (Some [], s\<lparr>cube := cube_upd (cube s) (base (head s)) POS_USED\<rparr>))"
proof -
  have "cube_set_offset s 0 POS_USED = Inr (s\<lparr>cube := cube_upd (cube s) (point (head s) 0) POS_USED\<rparr>)"
    using assms by (intro cube_set_offset_in [of n]) (simp_all add: empty_chain_inv_def)
  moreover have "backtrack_loop (s\<lparr>cube := cube_upd (cube s) (base (head s)) POS_USED\<rparr>) []
     = Some (Inr (Some [], s\<lparr>cube := cube_upd (cube s) (base (head s)) POS_USED\<rparr>))"
    using assms by (subst backtrack_loop.simps) (simp add: empty_chain_inv_def)
  ultimately show ?thesis using assms by (simp add: backtrack_def empty_chain_inv_def)
qed

lemma solve_loop_empty_chain_aux:
  assumes run: "solve_loop s = Some y"
  shows "\<not> empty_chain_inv n s"
proof (rule solve_loop.raw_induct [where P = "\<lambda>s y. \<not> empty_chain_inv n s", OF _ run], goal_cases)
  case (1 f s y)
  show ?case
  proof
    assume q: "empty_chain_inv n s"
    let ?s1 = "s\<lparr>cube := cube_upd (cube s) (base (head s)) POS_USED\<rparr>"
    have "f (?s1\<lparr>paths := paths ?s1 @ [[]]\<rparr>) = Some y"
      using 1(2) by (simp add: backtrack_empty_chain [OF q])
    then have "\<not> empty_chain_inv n (?s1\<lparr>paths := paths ?s1 @ [[]]\<rparr>)" by (rule 1(1))
    moreover have "empty_chain_inv n (?s1\<lparr>paths := paths ?s1 @ [[]]\<rparr>)"
      using q by (simp add: empty_chain_inv_def wf_cube_upd)
    ultimately show False by simp
  qed
qed

lemma solve_loop_empty_chain: "empty_chain_inv n s \<Longrightarrow> solve_loop s = None"
  using solve_loop_empty_chain_aux [of s _ n] by (cases "solve_loop s") auto

text \<open>
  C10. With the empty chain and a starting head in the cube (so the cube size is at
  least 1), \<^verbatim>\<open>solve\<close> never returns: the first call of \<^verbatim>\<open>_backtrack\<close> returns the
  empty path, which is not \<^verbatim>\<open>None\<close>, and so does every later one (lemmas
  \<open>backtrack_empty_chain\<close> and \<open>solve_loop_empty_chain\<close>).
\<close>

theorem solve_empty_chain_diverges:
  assumes "in_cube cs (base h)"
  shows "solve (Backtrack_init [] cs h) = None
       \<and> (\<exists>s'. backtrack (Backtrack_init [] cs h) = Some (Inr (Some [], s')))"
proof -
  have "0 \<le> cs" using assms by (simp add: in_cube_def)
  then have q: "empty_chain_inv cs (Backtrack_init [] cs h)"
    using assms by (simp add: empty_chain_inv_def Backtrack_init_def wf_cube_replicate)
  have "solve_loop (Backtrack_init [] cs h) = None" by (rule solve_loop_empty_chain [OF q])
  then have "solve (Backtrack_init [] cs h) = None"
    by (simp add: solve_def Backtrack_init_def)
  then show ?thesis using backtrack_empty_chain [OF q] by simp
qed

theorem solve_empty_chain_diverges_witness:
  "in_cube 1 (base (BacktrackHead_init (Vector3D 0 0 0) (Vector3D 1 0 0)))
   \<and> solve (Backtrack_init [] 1 (BacktrackHead_init (Vector3D 0 0 0) (Vector3D 1 0 0))) = None"
proof -
  have h: "in_cube 1 (base (BacktrackHead_init (Vector3D 0 0 0) (Vector3D 1 0 0)))"
    by (simp add: in_cube_def BacktrackHead_init_def)
  show ?thesis using h solve_empty_chain_diverges [OF h] by simp
qed

section \<open>The length of the solutions\<close>

lemma len_inv_cube [simp]: "len_inv ch ps (s\<lparr>cube := c\<rparr>) path = len_inv ch ps s path"
  by (simp add: len_inv_def)

lemma len_inv_head [simp]: "len_inv ch ps (s\<lparr>head := h\<rparr>) path = len_inv ch ps s path"
  by (simp add: len_inv_def)

lemma try_next_joint_len:
  assumes "try_next_joint s path js = Inr (Continue s' path')" "len_inv ch ps s path"
  shows "len_inv ch ps s' path'"
proof -
  from assms(1) obtain h' s1 where
    "cube_set_offset (s\<lparr>head := h'\<rparr>) 0 (js + 1) = Inr s1" "s' = s1" "path' = path"
    by (auto simp: try_next_joint_def split: sum.splits error.splits)
  then show ?thesis using assms(2) by (auto dest!: cube_set_offset_frame)
qed

lemma move_forward_len:
  assumes "move_forward s path n = Inr (Continue s' path')" "len_inv ch ps s path"
    "pos s < chainlength s"
  shows "len_inv ch ps s' path'"
proof -
  from assms(1) obtain s1 s2 h' where
    st: "cube_set_offsets s [1..n - 1] POS_USED = Inr s1" "cube_set_offset s1 n JOINT0 = Inr s2"
    "s' = s2\<lparr>head := h', pos := pos s2 + 1\<rparr>" "path' = path @ [head s2]"
    by (auto simp: move_forward_def split: sum.splits)
  from cube_set_offsets_frame [OF st(1)] cube_set_offset_frame [OF st(2)]
  obtain c1 c2 where "s1 = s\<lparr>cube := c1\<rparr>" "s2 = s1\<lparr>cube := c2\<rparr>" by blast
  then show ?thesis using st(3,4) assms(2,3) by (simp add: len_inv_def)
qed

lemma back_up_len:
  assumes "back_up s path = Inr (s', path')" "len_inv ch ps s path"
  shows "len_inv ch ps s' path'"
proof -
  from assms(1) obtain h n s3 js h' where
    st: "pop path = Inr (h, path')"
    "cube_set_offsets (s\<lparr>pos := pos s - 1, head := h\<rparr>) [1..n] POS_FREE = Inr s3"
    "cube_set_offset (s3\<lparr>head := h'\<rparr>) 0 (js + 1) = Inr s'"
    by (auto simp: back_up_def Let_def split: sum.splits prod.splits)
  from cube_set_offsets_frame [OF st(2)] cube_set_offset_frame [OF st(3)]
  obtain c1 c2 where c: "s3 = s\<lparr>pos := pos s - 1, head := h, cube := c1\<rparr>" "s' = s3\<lparr>head := h', cube := c2\<rparr>"
    by auto
  from st(1) have "path \<noteq> []" "path' = butlast path" by (auto simp: pop_def split: if_splits)
  then have "int (length path') = int (length path) - 1" "length path' \<le> length path"
    by (cases path rule: rev_cases; simp)+
  then show ?thesis using c assms(2) by (auto simp: len_inv_def)
qed

lemma loop_body_len:
  assumes "loop_body s path = Some (Inr (Continue s' path'))" "len_inv ch ps s path"
    "pos s < chainlength s"
  shows "len_inv ch ps s' path'"
  using assms
  by (auto simp: loop_body_def joint_wrapped_around_def
           split: sum.splits option.splits if_splits prod.splits
           dest: try_next_joint_len move_forward_len back_up_len)

lemma backtrack_loop_len:
  assumes "backtrack_loop s path = Some (Inr (r, s'))" "len_inv ch ps s path"
  shows "paths s' = ps \<and> (\<forall>p. r = Some p \<longrightarrow> len_inv ch ps s' p \<and> pos s' = chainlength s')"
proof -
  have "case r of Some p \<Rightarrow> len_inv ch ps s' p \<and> \<not> pos s' < chainlength s' | None \<Rightarrow> paths s' = ps"
    using assms
  proof (rule backtrack_loop_rule)
    fix s path s1 path1
    assume "len_inv ch ps s path" "pos s < chainlength s"
      "loop_body s path = Some (Inr (Continue s1 path1))"
    then show "len_inv ch ps s1 path1" by (rule_tac loop_body_len)
  next
    fix s path s1
    assume "len_inv ch ps s path" "loop_body s path = Some (Inr (Exhausted s1))"
    then show "paths s1 = ps" by (auto dest: loop_body_exhausted simp: len_inv_def)
  qed
  then show ?thesis by (cases r) (auto simp: len_inv_def)
qed

lemma backtrack_len:
  assumes "backtrack s = Some (Inr (r, s'))" "solve_inv ch s"
  shows "paths s' = paths s
       \<and> (\<forall>p. r = Some p \<longrightarrow> len_inv ch (paths s) s' p \<and> pos s' = chainlength s')"
proof (cases "pos s = 0")
  case True
  with assms(1) obtain s1 where
    b: "cube_set_offset s 0 POS_USED = Inr s1" "backtrack_loop s1 [] = Some (Inr (r, s'))"
    by (auto simp: backtrack_def split: sum.splits)
  from cube_set_offset_frame [OF b(1)] obtain c1 where "s1 = s\<lparr>cube := c1\<rparr>" by blast
  then have "len_inv ch (paths s) s1 []" using True assms(2) by (simp add: len_inv_def solve_inv_def)
  from backtrack_loop_len [OF b(2) this] show ?thesis .
next
  case False
  then have ne: "paths s \<noteq> []" and l: "int (length (last (paths s))) = pos s"
    using assms(2) by (auto simp: solve_inv_def)
  from False assms(1) getitem_last [OF ne] obtain s1 path1 where
    b: "back_up s (last (paths s)) = Inr (s1, path1)" "backtrack_loop s1 path1 = Some (Inr (r, s'))"
    by (auto simp: backtrack_def split: sum.splits)
  have "len_inv ch (paths s) s (last (paths s))"
    using False assms(2) l by (auto simp: len_inv_def solve_inv_def)
  from back_up_len [OF b(1) this] have "len_inv ch (paths s) s1 path1" .
  from backtrack_loop_len [OF b(2) this] show ?thesis .
qed

lemma solve_inv_step:
  assumes "backtrack s = Some (Inr (Some p, s1))" "solve_inv ch s"
  shows "solve_inv ch (s1\<lparr>paths := paths s1 @ [p]\<rparr>)"
  using backtrack_len [OF assms] assms(2) by (auto simp: len_inv_def solve_inv_def)

lemma solve_loop_len:
  assumes "solve_loop s = Some (Inr s')" "solve_inv ch s"
  shows "\<forall>p \<in> set (paths s'). length p = length ch"
  using assms
proof (rule solve_loop_rule)
  fix s p s1
  assume "solve_inv ch s" "backtrack s = Some (Inr (Some p, s1))"
  from backtrack_len [OF this(2,1)] this(1)
  show "solve_inv ch (s1\<lparr>paths := paths s1 @ [p]\<rparr>)"
    by (auto simp: len_inv_def solve_inv_def)
next
  fix s s1
  assume "solve_inv ch s" "backtrack s = Some (Inr (None, s1))"
  from backtrack_len [OF this(2,1)] this(1)
  show "\<forall>p \<in> set (paths s1). length p = length ch" by (simp add: solve_inv_def)
qed

text \<open>
  C9. Every path in the list that \<^verbatim>\<open>solve\<close> returns has as many snapshots as the
  chain has entries.
\<close>

theorem solution_length:
  assumes "solve (Backtrack_init ch cs h) = Some (Inr (ps, s'))"
  shows "\<forall>p \<in> set ps. length p = length ch"
proof -
  have i: "solve_inv ch (Backtrack_init ch cs h)"
    by (simp add: solve_inv_def Backtrack_init_def)
  from assms obtain "solve_loop (Backtrack_init ch cs h) = Some (Inr s')" "ps = paths s'"
    by (auto simp: solve_def Backtrack_init_def split: option.splits sum.splits)
  then show ?thesis using solve_loop_len [OF _ i] by simp
qed

lemma two_slices_run:
  "returned (solve (Backtrack_init [1, 1] 2 (BacktrackHead_init (Vector3D 0 0 0) (Vector3D 1 0 0))))
   = Some (Inr
     [[\<lparr>base = Vector3D 0 0 0, direction = Vector3D 1 0 0, old_direction = None\<rparr>,
       \<lparr>base = Vector3D 1 0 0, direction = Vector3D 0 1 0, old_direction = Some (Vector3D 1 0 0)\<rparr>],
      [\<lparr>base = Vector3D 0 0 0, direction = Vector3D 1 0 0, old_direction = None\<rparr>,
       \<lparr>base = Vector3D 1 0 0, direction = Vector3D 0 0 1, old_direction = Some (Vector3D 1 0 0)\<rparr>]])"
  by code_simp

theorem solution_length_witness:
  "\<exists>ps s'. solve (Backtrack_init [1, 1] 2 (BacktrackHead_init (Vector3D 0 0 0) (Vector3D 1 0 0)))
                 = Some (Inr (ps, s'))
        \<and> length ps = 2 \<and> (\<forall>p \<in> set ps. length p = length [1, 1 :: int])"
proof -
  from returned_Inr [OF two_slices_run] obtain s' where
    r: "solve (Backtrack_init [1, 1] 2 (BacktrackHead_init (Vector3D 0 0 0) (Vector3D 1 0 0)))
        = Some (Inr ([[\<lparr>base = Vector3D 0 0 0, direction = Vector3D 1 0 0, old_direction = None\<rparr>,
       \<lparr>base = Vector3D 1 0 0, direction = Vector3D 0 1 0, old_direction = Some (Vector3D 1 0 0)\<rparr>],
      [\<lparr>base = Vector3D 0 0 0, direction = Vector3D 1 0 0, old_direction = None\<rparr>,
       \<lparr>base = Vector3D 1 0 0, direction = Vector3D 0 0 1, old_direction = Some (Vector3D 1 0 0)\<rparr>]], s'))"
    by blast
  from solution_length [OF r] r show ?thesis by simp
qed

section \<open>Occupancy\<close>

subsection \<open>Paths and the cells they sweep\<close>

lemma vec_eq_iff: "(a = b) = (vx a = vx b \<and> vy a = vy b \<and> vz a = vz b)"
  by (cases a, cases b) simp

lemma point_sel [simp]:
  "vx (point h k) = vx (base h) + vx (direction h) * k"
  "vy (point h k) = vy (base h) + vy (direction h) * k"
  "vz (point h k) = vz (base h) + vz (direction h) * k"
  by (simp_all add: point_def add_def rmul_def)

lemma add_sel [simp]:
  "vx (add a b) = vx a + vx b" "vy (add a b) = vy a + vy b" "vz (add a b) = vz a + vz b"
  by (simp_all add: add_def)

lemma slices_snoc:
  "length path < length ch \<Longrightarrow>
     slices (path @ [h]) ch = slices path ch @ slice_cells h (ch ! length path)"
proof (induction path arbitrary: ch)
  case Nil
  then show ?case by (cases ch) simp_all
next
  case (Cons a path)
  then show ?case by (cases ch) simp_all
qed

lemma linked_snoc:
  "linked b (path @ [h]) ch e =
     (length path < length ch \<and> linked b path ch (base h) \<and> e = point h (ch ! length path))"
proof (induction path arbitrary: b ch)
  case Nil
  then show ?case by (cases ch) auto
next
  case (Cons a path)
  then show ?case by (cases ch) auto
qed

lemma point_last_slice: "1 \<le> c \<Longrightarrow> point h c \<in> set (slice_cells h c)"
  by (simp add: slice_cells_def)

lemma linked_end_mem:
  "linked b path ch e \<Longrightarrow> \<forall>c \<in> set ch. 1 \<le> c \<Longrightarrow> e \<in> set (b # slices path ch)"
proof (induction path arbitrary: b ch)
  case Nil
  then show ?case by simp
next
  case (Cons h path)
  then obtain c cs where ch: "ch = c # cs" by (cases ch) auto
  with Cons.prems have l: "linked (point h c) path cs e" and c: "1 \<le> c" "\<forall>c \<in> set cs. 1 \<le> c"
    by auto
  from Cons.IH [OF l c(2)] have "e = point h c \<or> e \<in> set (slices path cs)" by auto
  then show ?case using ch c(1) point_last_slice [of c h] by auto
qed

lemma linked_bases:
  "linked b path ch e \<Longrightarrow> \<forall>c \<in> set ch. 1 \<le> c \<Longrightarrow> base ` set path \<subseteq> set (b # slices path ch)"
proof (induction path arbitrary: b ch)
  case Nil
  then show ?case by simp
next
  case (Cons h path)
  then obtain c cs where ch: "ch = c # cs" by (cases ch) auto
  with Cons.prems have l: "linked (point h c) path cs e" and c: "1 \<le> c" "\<forall>c \<in> set cs. 1 \<le> c"
    and b: "base h = b"
    by auto
  from Cons.IH [OF l c(2)] have "base ` set path \<subseteq> set (point h c # slices path cs)" .
  then show ?case using ch c(1) b point_last_slice [of c h] by auto
qed

lemma linked_hd: "linked b path ch e \<Longrightarrow> path \<noteq> [] \<Longrightarrow> base (hd path) = b"
  by (cases path; cases ch) auto

lemma point_inj:
  "direction h \<in> set baseDirections \<Longrightarrow> point h k = point h k' \<Longrightarrow> k = k'"
  by (auto simp: baseDirections_def vec_eq_iff)

subsection \<open>The free run in front of the head\<close>

lemma jointDirections_key:
  "dict_get jointDirections d = Inr ds \<Longrightarrow> d \<in> set baseDirections"
  by (auto simp: jointDirections_value dict_get_def baseDirections_def split: if_splits)

lemma jointDirections_length:
  "dict_get jointDirections od = Inr ds \<Longrightarrow> length ds = 5"
  by (auto simp: jointDirections_value dict_get_def split: if_splits)

lemma py_max3: "py_max [a, b, c] = max (max a b) c"
  by (simp add: py_max_def)

lemma py_min3: "py_min [a, b, c] = min (min a b) c"
  by (simp add: py_min_def)

lemma free_run_step:
  assumes "free_run n s j" "in_cube n (point (head s) (j + 1))"
    "cell (cube s) (point (head s) (j + 1)) = POS_FREE"
  shows "free_run n s (j + 1)"
  unfolding free_run_def
proof (intro allI impI)
  fix k assume "1 \<le> k \<and> k \<le> j + 1"
  then have "k \<le> j \<or> k = j + 1" by arith
  then show "in_cube n (point (head s) k) \<and> cell (cube s) (point (head s) k) = POS_FREE"
    using assms \<open>1 \<le> k \<and> k \<le> j + 1\<close> by (auto simp: free_run_def)
qed

lemma nsteps_loop_pos_free:
  assumes run: "nsteps_loop_pos s p j = Some (Inr m)"
    and wf: "wf_cube n (cube s)" "cubesize s = n"
    and d: "direction (head s) \<in> {Vector3D 1 0 0, Vector3D 0 1 0, Vector3D 0 0 1}"
    and p: "p = point (head s) j" "in_cube n p" "free_run n s j"
  shows "free_run n s m"
proof -
  let ?I = "\<lambda>s p j. wf_cube n (cube s) \<and> cubesize s = n
      \<and> direction (head s) \<in> {Vector3D 1 0 0, Vector3D 0 1 0, Vector3D 0 0 1}
      \<and> p = point (head s) j \<and> in_cube n p \<and> free_run n s j"
  have "(Inr m :: error + int) = Inr m \<longrightarrow> ?I s p j \<longrightarrow> free_run n s m"
  proof (rule nsteps_loop_pos.raw_induct
      [where P = "\<lambda>s p j y. y = Inr m \<longrightarrow> ?I s p j \<longrightarrow> free_run n s m", OF _ run], goal_cases)
    case (1 f s p j y)
    show ?case
    proof (intro impI)
      assume y: "y = Inr m" and i: "?I s p j"
      let ?q = "add p (direction (head s))"
      have q: "?q = point (head s) (j + 1)"
        using i by (auto simp: vec_eq_iff algebra_simps)
      show "free_run n s m"
      proof (cases "py_max (to_list ?q) < cubesize s")
        case False
        with 1(2) y i show ?thesis by simp
      next
        case True
        then have inq: "in_cube n ?q"
          using i by (auto simp: to_list_def py_max3 in_cube_def)
        then have g: "cube_get_offset s (j + 1) = Inr (cell (cube s) ?q)"
          using i q cube_get_offset_in [of n s "j + 1"] by simp
        show ?thesis
        proof (cases "cell (cube s) ?q = POS_FREE")
          case False
          with 1(2) y i True g show ?thesis by simp
        next
          case free: True
          with 1(2) y True g have "f s ?q (j + 1) = Some (Inr m)" by simp
          moreover have "?I s ?q (j + 1)"
            using i q inq free free_run_step [of n s j] by simp
          ultimately show ?thesis using 1(1) [of s ?q "j + 1" "Inr m"] by blast
        qed
      qed
    qed
  qed
  then show ?thesis using assms by simp
qed

lemma nsteps_loop_neg_free:
  assumes run: "nsteps_loop_neg s p j = Some (Inr m)"
    and wf: "wf_cube n (cube s)" "cubesize s = n"
    and d: "direction (head s) \<in> {Vector3D (-1) 0 0, Vector3D 0 (-1) 0, Vector3D 0 0 (-1)}"
    and p: "p = point (head s) j" "in_cube n p" "free_run n s j"
  shows "free_run n s m"
proof -
  let ?I = "\<lambda>s p j. wf_cube n (cube s) \<and> cubesize s = n
      \<and> direction (head s) \<in> {Vector3D (-1) 0 0, Vector3D 0 (-1) 0, Vector3D 0 0 (-1)}
      \<and> p = point (head s) j \<and> in_cube n p \<and> free_run n s j"
  have "(Inr m :: error + int) = Inr m \<longrightarrow> ?I s p j \<longrightarrow> free_run n s m"
  proof (rule nsteps_loop_neg.raw_induct
      [where P = "\<lambda>s p j y. y = Inr m \<longrightarrow> ?I s p j \<longrightarrow> free_run n s m", OF _ run], goal_cases)
    case (1 f s p j y)
    show ?case
    proof (intro impI)
      assume y: "y = Inr m" and i: "?I s p j"
      let ?q = "add p (direction (head s))"
      have q: "?q = point (head s) (j + 1)"
        using i by (auto simp: vec_eq_iff algebra_simps)
      show "free_run n s m"
      proof (cases "py_min (to_list ?q) \<ge> 0")
        case False
        with 1(2) y i show ?thesis by simp
      next
        case True
        then have inq: "in_cube n ?q"
          using i by (auto simp: to_list_def py_min3 in_cube_def)
        then have g: "cube_get_offset s (j + 1) = Inr (cell (cube s) ?q)"
          using i q cube_get_offset_in [of n s "j + 1"] by simp
        show ?thesis
        proof (cases "cell (cube s) ?q = POS_FREE")
          case False
          with 1(2) y i True g show ?thesis by simp
        next
          case free: True
          with 1(2) y True g have "f s ?q (j + 1) = Some (Inr m)" by simp
          moreover have "?I s ?q (j + 1)"
            using i q inq free free_run_step [of n s j] by simp
          ultimately show ?thesis using 1(1) [of s ?q "j + 1" "Inr m"] by blast
        qed
      qed
    qed
  qed
  then show ?thesis using assms by simp
qed

lemma nsteps_free:
  assumes "nsteps s = Some (Inr m)" "wf_cube n (cube s)" "cubesize s = n"
    "direction (head s) \<in> set baseDirections" "in_cube n (base (head s))"
  shows "free_run n s m"
proof (cases "get_sign (head s) = 1")
  case True
  then have d: "direction (head s) \<in> {Vector3D 1 0 0, Vector3D 0 1 0, Vector3D 0 0 1}"
    using assms(4) by (auto simp: get_sign_def baseDirections_def to_list_def py_max3 split: if_splits)
  from True assms(1) have run: "nsteps_loop_pos s (base (head s)) 0 = Some (Inr m)"
    by (simp add: nsteps_def)
  have "free_run n s 0" unfolding free_run_def by (intro allI impI) arith
  from nsteps_loop_pos_free [OF run assms(2,3) d _ _ this] assms(5) show ?thesis by simp
next
  case False
  then have d: "direction (head s) \<in> {Vector3D (-1) 0 0, Vector3D 0 (-1) 0, Vector3D 0 0 (-1)}"
    using assms(4) by (auto simp: get_sign_def baseDirections_def to_list_def py_max3 split: if_splits)
  from False assms(1) have run: "nsteps_loop_neg s (base (head s)) 0 = Some (Inr m)"
    by (simp add: nsteps_def)
  have "free_run n s 0" unfolding free_run_def by (intro allI impI) arith
  from nsteps_loop_neg_free [OF run assms(2,3) d _ _ this] assms(5) show ?thesis by simp
qed

subsection \<open>Every round of the search keeps the invariant\<close>

lemma rotate_to_frame: "rotate_to h k = Inr h' \<Longrightarrow> base h' = base h"
  by (auto simp: rotate_to_def split: option.splits sum.splits)

lemma change_direction_frame:
  "change_direction h = Inr h' \<Longrightarrow> base h' = base h \<and> direction h \<in> set baseDirections"
  by (auto simp: change_direction_def split: sum.splits dest: jointDirections_key)

lemma occ_inv_head_mem:
  assumes "occ_inv n b0 ch ps s path" "\<forall>c \<in> set ch. 1 \<le> c"
  shows "base (head s) \<in> set (b0 # slices path ch)"
  using assms by (intro linked_end_mem) (simp_all add: occ_inv_def)

lemma rotate_step_occ:
  assumes inv: "occ_inv n b0 ch ps s path" and pos: "\<forall>c \<in> set ch. 1 \<le> c"
    and g: "cube_get_offset s 0 = Inr js"
    and r: "rotate_to (head s) k = Inr h'"
    and w: "cube_set_offset (s\<lparr>head := h'\<rparr>) 0 (js + 1) = Inr s'"
  shows "occ_inv n b0 ch ps s' path"
proof -
  let ?b = "base (head s)"
  have wf: "wf_cube n (cube s)" using inv by (simp add: occ_inv_def)
  have mem: "?b \<in> set (b0 # slices path ch)" using inv pos by (rule occ_inv_head_mem)
  then have inb: "in_cube n ?b" and ge: "-1 \<le> cell (cube s) ?b"
    using inv by (auto simp: occ_inv_def)
  have "cube_get_offset s 0 = Inr (cell (cube s) ?b)"
    using cube_get_offset_in [of n s 0] wf inb by simp
  with g have js: "js = cell (cube s) ?b" by simp
  have b': "base h' = ?b" using r by (rule rotate_to_frame)
  have "cube_set_offset (s\<lparr>head := h'\<rparr>) 0 (js + 1)
      = Inr (s\<lparr>head := h', cube := cube_upd (cube s) ?b (js + 1)\<rparr>)"
    using cube_set_offset_in [of n "s\<lparr>head := h'\<rparr>" 0 "js + 1"] wf inb b' by simp
  with w have s': "s' = s\<lparr>head := h', cube := cube_upd (cube s) ?b (js + 1)\<rparr>" by simp
  have cells: "\<forall>p \<in> set (b0 # slices path ch). in_cube n p \<and> -1 \<le> cell (cube s') p"
  proof
    fix p assume p: "p \<in> set (b0 # slices path ch)"
    then have ip: "in_cube n p" "-1 \<le> cell (cube s) p" using inv by (auto simp: occ_inv_def)
    then show "in_cube n p \<and> -1 \<le> cell (cube s') p"
      using s' js ge cell_cube_upd [OF wf inb ip(1)] by simp
  qed
  show ?thesis
    unfolding occ_inv_def
    using inv cells s' b' wf inb by (simp add: occ_inv_def wf_cube_upd)
qed

lemma try_next_joint_occ:
  assumes "occ_inv n b0 ch ps s path" "\<forall>c \<in> set ch. 1 \<le> c"
    "cube_get_offset s 0 = Inr js"
    "try_next_joint s path js = Inr (Continue s' path')"
  shows "occ_inv n b0 ch ps s' path'"
proof -
  from assms(4) obtain h' where
    "rotate_to (head s) ((js + 1) mod N_JNTS) = Inr h'"
    "cube_set_offset (s\<lparr>head := h'\<rparr>) 0 (js + 1) = Inr s'" "path' = path"
    by (auto simp: try_next_joint_def split: sum.splits error.splits)
  then show ?thesis using rotate_step_occ [OF assms(1,2,3)] by simp
qed

lemma back_up_occ:
  assumes inv: "occ_inv n b0 ch ps s path" and pos: "\<forall>c \<in> set ch. 1 \<le> c"
    and bu: "back_up s path = Inr (s', path')"
  shows "occ_inv n b0 ch ps s' path'"
proof -
  from bu obtain h nd s3 js h' where
    st: "pop path = Inr (h, path')"
    "getitem (chain s) (pos s - 1) = Inr nd"
    "cube_set_offsets (s\<lparr>pos := pos s - 1, head := h\<rparr>) [1..nd] POS_FREE = Inr s3"
    "cube_get_offset s3 0 = Inr js"
    "rotate_to (head s3) ((js + 1) mod N_JNTS) = Inr h'"
    "cube_set_offset (s3\<lparr>head := h'\<rparr>) 0 (js + 1) = Inr s'"
    by (auto simp: back_up_def Let_def split: sum.splits prod.splits)
  let ?s2 = "s\<lparr>pos := pos s - 1, head := h\<rparr>"
  from st(1) have path: "path = path' @ [h]"
    by (auto simp: pop_def split: if_splits)
  have li: "len_inv ch ps s path" and wf: "wf_cube n (cube s)"
    and lk: "linked b0 path ch (base (head s))"
    and di: "distinct (b0 # slices path ch)"
    and ce: "\<forall>p \<in> set (b0 # slices path ch). in_cube n p \<and> -1 \<le> cell (cube s) p"
    using inv by (simp_all add: occ_inv_def)
  from lk path have lt: "length path' < length ch" and lk': "linked b0 path' ch (base h)"
    by (simp_all add: linked_snoc)
  have ps: "pos s - 1 = int (length path')" "chain s = ch"
    using li path by (simp_all add: len_inv_def)
  with st(2) lt have nd: "nd = ch ! length path'" by (simp add: getitem_in)
  have sl: "slices path ch = slices path' ch @ slice_cells h nd"
    using path lt nd by (simp add: slices_snoc)
  have inall: "\<forall>k \<in> set [1..nd]. in_cube n (point (head ?s2) k)"
    using ce sl by (simp add: slice_cells_def)
  from cube_set_offsets_in [of n ?s2 "[1..nd]" POS_FREE] wf inall obtain c3 where
    c3: "cube_set_offsets ?s2 [1..nd] POS_FREE = Inr (?s2\<lparr>cube := c3\<rparr>)" "wf_cube n c3"
    "\<forall>q. in_cube n q \<longrightarrow> cell c3 q = (if q \<in> point h ` set [1..nd] then POS_FREE else cell (cube s) q)"
    by auto
  with st(3) have s3: "s3 = ?s2\<lparr>cube := c3\<rparr>" by simp
  have "occ_inv n b0 ch ps s3 path'"
  proof -
    have "len_inv ch ps s3 path'"
      using li s3 path by (simp add: len_inv_def)
    moreover have "\<forall>p \<in> set (b0 # slices path' ch). in_cube n p \<and> -1 \<le> cell (cube s3) p"
    proof
      fix p assume p: "p \<in> set (b0 # slices path' ch)"
      then have "p \<notin> set (slice_cells h nd)" using di sl by auto
      then have "p \<notin> point h ` set [1..nd]" by (simp add: slice_cells_def)
      moreover have "in_cube n p \<and> -1 \<le> cell (cube s) p" using p ce sl by auto
      ultimately show "in_cube n p \<and> -1 \<le> cell (cube s3) p" using c3(3) s3 by simp
    qed
    moreover have "distinct (b0 # slices path' ch)" using di sl by auto
    ultimately show ?thesis
      using inv s3 c3(2) lk' by (simp add: occ_inv_def)
  qed
  from rotate_step_occ [OF this pos st(4,5,6)] show ?thesis .
qed

lemma move_forward_occ:
  assumes inv: "occ_inv n b0 ch ps s path" and pos: "\<forall>c \<in> set ch. 1 \<le> c"
    and lt: "pos s < chainlength s"
    and nd: "getitem (chain s) (pos s) = Inr needed"
    and ns: "nsteps s = Some (Inr allowed)"
    and ge: "\<not> allowed < needed"
    and mv: "move_forward s path needed = Inr (Continue s' path')"
  shows "occ_inv n b0 ch ps s' path'"
proof -
  let ?h = "head s"
  have li: "len_inv ch ps s path" and wf: "wf_cube n (cube s)" and cs: "cubesize s = n"
    and lk: "linked b0 path ch (base ?h)"
    and di: "distinct (b0 # slices path ch)"
    and ce: "\<forall>p \<in> set (b0 # slices path ch). in_cube n p \<and> -1 \<le> cell (cube s) p"
    using inv by (simp_all add: occ_inv_def)
  have len: "length path < length ch" "pos s = int (length path)" "chain s = ch"
    using li lt by (simp_all add: len_inv_def)
  with nd have needed: "needed = ch ! length path" by (simp add: getitem_in)
  then have n1: "1 \<le> needed" using pos len(1) by simp
  from mv obtain s1 s2 h' where
    st: "cube_set_offsets s [1..needed - 1] POS_USED = Inr s1"
    "cube_set_offset s1 needed JOINT0 = Inr s2"
    "change_direction (move (head s2) needed) = Inr h'"
    "s' = s2\<lparr>head := h', pos := pos s2 + 1\<rparr>" "path' = path @ [head s2]"
    by (auto simp: move_forward_def split: sum.splits)
  from cube_set_offsets_frame [OF st(1)] cube_set_offset_frame [OF st(2)]
  have h2: "head s2 = ?h" "head s1 = ?h" by auto
  from change_direction_frame [OF st(3)] h2
  have dir: "direction ?h \<in> set baseDirections" and bh': "base h' = point ?h needed"
    by (simp_all add: move_def point_def)
  have inb: "in_cube n (base ?h)"
    using occ_inv_head_mem [OF inv pos] ce by blast
  from nsteps_free [OF ns wf cs dir inb] ge
  have free: "\<forall>k. 1 \<le> k \<and> k \<le> needed \<longrightarrow>
      in_cube n (point ?h k) \<and> cell (cube s) (point ?h k) = POS_FREE"
    by (simp add: free_run_def)
  then have "\<forall>k \<in> set [1..needed - 1]. in_cube n (point ?h k)" by simp
  from cube_set_offsets_in [OF wf this, of POS_USED] st(1) obtain c1 where
    c1: "s1 = s\<lparr>cube := c1\<rparr>" "wf_cube n c1"
    "\<forall>q. in_cube n q \<longrightarrow> cell c1 q = (if q \<in> point ?h ` set [1..needed - 1] then POS_USED else cell (cube s) q)"
    by auto
  have inn: "in_cube n (point ?h needed)" using free n1 by simp
  from cube_set_offset_in [of n s1 needed JOINT0] c1(1,2) inn st(2)
  have s2: "s2 = s\<lparr>cube := cube_upd c1 (point ?h needed) JOINT0\<rparr>" by simp
  have new: "\<forall>q \<in> set (slice_cells ?h needed). in_cube n q \<and> -1 \<le> cell (cube s2) q
      \<and> q \<notin> set (b0 # slices path ch)"
  proof
    fix q assume "q \<in> set (slice_cells ?h needed)"
    then obtain k where k: "q = point ?h k" "1 \<le> k" "k \<le> needed"
      by (auto simp: slice_cells_def)
    then have qf: "in_cube n q" "cell (cube s) q = POS_FREE" using free by simp_all
    then have "q \<notin> set (b0 # slices path ch)" using ce by (auto simp: POS_FREE_def)
    moreover have "-1 \<le> cell (cube s2) q"
    proof (cases "k = needed")
      case True
      then show ?thesis using s2 k(1) cell_cube_upd [OF c1(2) inn inn] by (simp add: JOINT0_def)
    next
      case False
      then have "q \<in> point ?h ` set [1..needed - 1]" using k by simp
      then have "cell c1 q = POS_USED" using c1(3) qf(1) by simp
      then show ?thesis using s2 cell_cube_upd [OF c1(2) inn qf(1)]
        by (simp add: JOINT0_def POS_USED_def)
    qed
    ultimately show "in_cube n q \<and> -1 \<le> cell (cube s2) q \<and> q \<notin> set (b0 # slices path ch)"
      using qf(1) by simp
  qed
  have old: "\<forall>q \<in> set (b0 # slices path ch). in_cube n q \<and> -1 \<le> cell (cube s2) q"
  proof
    fix q assume q: "q \<in> set (b0 # slices path ch)"
    then have qi: "in_cube n q" "-1 \<le> cell (cube s) q" using ce by blast+
    have "\<forall>k. 1 \<le> k \<and> k \<le> needed \<longrightarrow> q \<noteq> point ?h k"
      using free qi(2) by (auto simp: POS_FREE_def)
    then have "q \<noteq> point ?h needed" "q \<notin> point ?h ` set [1..needed - 1]"
      using n1 by auto
    then show "in_cube n q \<and> -1 \<le> cell (cube s2) q"
      using s2 qi c1(3) cell_cube_upd [OF c1(2) inn qi(1)] by simp
  qed
  have dn: "distinct (slice_cells ?h needed)"
    unfolding slice_cells_def
    by (auto simp: distinct_map inj_on_def dest: point_inj [OF dir])
  have sl: "slices path' ch = slices path ch @ slice_cells ?h needed"
    using st(5) h2 len(1) needed by (simp add: slices_snoc)
  have "len_inv ch ps s' path'" using mv li lt by (rule move_forward_len)
  moreover have "linked b0 path' ch (base (head s'))"
    using st(4,5) h2 bh' lk len(1) needed by (simp add: linked_snoc)
  moreover have "distinct (b0 # slices path' ch)"
    using sl di dn new by auto
  moreover have "\<forall>p \<in> set (b0 # slices path' ch). in_cube n p \<and> -1 \<le> cell (cube s') p"
    using sl old new st(4) by auto
  moreover have "wf_cube n (cube s')" "cubesize s' = n"
    using st(4) s2 c1(2) inn cs by (simp_all add: wf_cube_upd)
  ultimately show ?thesis by (simp add: occ_inv_def)
qed

lemma loop_body_occ:
  assumes "occ_inv n b0 ch ps s path" "\<forall>c \<in> set ch. 1 \<le> c" "pos s < chainlength s"
    "loop_body s path = Some (Inr (Continue s' path'))"
  shows "occ_inv n b0 ch ps s' path'"
proof -
  from assms(4) obtain js where js: "cube_get_offset s 0 = Inr js"
    by (auto simp: loop_body_def split: sum.splits)
  show ?thesis
  proof (cases "joint_wrapped js")
    case True
    with assms(4) js obtain "back_up s path = Inr (s', path')"
      by (auto simp: loop_body_def joint_wrapped_around_def split: sum.splits if_splits)
    with assms(1,2) show ?thesis by (rule back_up_occ)
  next
    case False
    with assms(4) js obtain needed allowed where
      na: "getitem (chain s) (pos s) = Inr needed" "nsteps s = Some (Inr allowed)"
      "(if allowed < needed then try_next_joint s path js else move_forward s path needed)
         = Inr (Continue s' path')"
      by (auto simp: loop_body_def split: sum.splits option.splits if_splits)
    show ?thesis
    proof (cases "allowed < needed")
      case True
      with na(3) assms(1,2) js show ?thesis by (auto intro: try_next_joint_occ)
    next
      case False
      with na(3) have "move_forward s path needed = Inr (Continue s' path')" by simp
      with assms(1,2,3) na(1,2) False show ?thesis by (rule move_forward_occ)
    qed
  qed
qed

lemma occ_inv_ok:
  assumes "occ_inv n b0 ch ps s p" "\<forall>c \<in> set ch. 1 \<le> c"
  shows "occupancy_ok n ch p"
proof (cases p)
  case Nil
  then show ?thesis by (simp add: occupancy_ok_def swept_cells_def)
next
  case (Cons h hs)
  have lk: "linked b0 p ch (base (head s))" using assms(1) by (simp add: occ_inv_def)
  with Cons have "base h = b0" using linked_hd [of b0 p ch] by simp
  then have sw: "swept_cells p ch = b0 # slices p ch" using Cons by (simp add: swept_cells_def)
  show ?thesis
    unfolding occupancy_ok_def sw
    using assms(1) linked_bases [OF lk assms(2)] by (simp add: occ_inv_def)
qed

lemma backtrack_loop_occ:
  assumes "backtrack_loop s path = Some (Inr (Some p, s'))" "occ_inv n b0 ch ps s path"
    "\<forall>c \<in> set ch. 1 \<le> c"
  shows "occ_inv n b0 ch ps s' p"
proof -
  have "case Some p of Some p \<Rightarrow> occ_inv n b0 ch ps s' p \<and> \<not> pos s' < chainlength s' | None \<Rightarrow> True"
    using assms(1,2)
  proof (rule backtrack_loop_rule)
    fix s path s1 path1
    assume "occ_inv n b0 ch ps s path" "pos s < chainlength s"
      "loop_body s path = Some (Inr (Continue s1 path1))"
    then show "occ_inv n b0 ch ps s1 path1" using assms(3) by (rule_tac loop_body_occ)
  qed simp
  then show ?thesis by simp
qed

lemma backtrack_occ:
  assumes "backtrack s = Some (Inr (Some p, s'))" "occ_pre n b0 ch s" "\<forall>c \<in> set ch. 1 \<le> c"
  shows "occ_inv n b0 ch (paths s) s' p"
proof (cases "pos s = 0")
  case True
  then have pre: "cubesize s = n" "wf_cube n (cube s)" "base (head s) = b0" "in_cube n b0"
    "solve_inv ch s"
    using assms(2) by (simp_all add: occ_pre_def)
  let ?s1 = "s\<lparr>cube := cube_upd (cube s) b0 POS_USED\<rparr>"
  have "cube_set_offset s 0 POS_USED = Inr ?s1"
    using cube_set_offset_in [of n s 0 POS_USED] pre by simp
  with True assms(1) have run: "backtrack_loop ?s1 [] = Some (Inr (Some p, s'))"
    by (simp add: backtrack_def)
  have "occ_inv n b0 ch (paths s) ?s1 []"
    using pre True cell_cube_upd [OF pre(2) pre(4) pre(4), of POS_USED]
    by (simp add: occ_inv_def len_inv_def solve_inv_def wf_cube_upd POS_USED_def)
  from backtrack_loop_occ [OF run this assms(3)] show ?thesis .
next
  case False
  then have ne: "paths s \<noteq> []" and inv: "occ_inv n b0 ch (paths s) s (last (paths s))"
    using assms(2) by (auto simp: occ_pre_def solve_inv_def)
  from False assms(1) getitem_last [OF ne] obtain s1 path1 where
    b: "back_up s (last (paths s)) = Inr (s1, path1)"
      "backtrack_loop s1 path1 = Some (Inr (Some p, s'))"
    by (auto simp: backtrack_def split: sum.splits)
  from back_up_occ [OF inv assms(3) b(1)] have "occ_inv n b0 ch (paths s) s1 path1" .
  from backtrack_loop_occ [OF b(2) this assms(3)] show ?thesis .
qed

lemma occ_pre_step:
  assumes "occ_pre n b0 ch s" "backtrack s = Some (Inr (Some p, s1))" "\<forall>c \<in> set ch. 1 \<le> c"
  shows "occ_pre n b0 ch (s1\<lparr>paths := paths s1 @ [p]\<rparr>)"
proof -
  have si: "solve_inv ch s" using assms(1) by (simp add: occ_pre_def)
  from backtrack_occ [OF assms(2,1,3)] have inv: "occ_inv n b0 ch (paths s) s1 p" .
  then have ps: "paths s1 = paths s" by (simp add: occ_inv_def len_inv_def)
  have ok: "occupancy_ok n ch p" using inv assms(3) by (rule occ_inv_ok)
  have inv': "occ_inv n b0 ch (paths s @ [p]) (s1\<lparr>paths := paths s @ [p]\<rparr>) p"
    using inv by (simp add: occ_inv_def len_inv_def)
  have zero: "pos s1 = 0 \<Longrightarrow> cubesize s1 = n \<and> wf_cube n (cube s1) \<and> base (head s1) = b0 \<and> in_cube n b0"
    using inv by (auto simp: occ_inv_def len_inv_def)
  show ?thesis
    unfolding occ_pre_def
    using solve_inv_step [OF assms(2) si] assms(1) ok inv' zero ps
    by (auto simp: occ_pre_def)
qed

lemma solve_loop_occ:
  assumes "solve_loop s = Some (Inr s')" "occ_pre n b0 ch s" "\<forall>c \<in> set ch. 1 \<le> c"
  shows "\<forall>p \<in> set (paths s'). occupancy_ok n ch p"
  using assms(1,2)
proof (rule solve_loop_rule)
  fix s p s1
  assume "occ_pre n b0 ch s" "backtrack s = Some (Inr (Some p, s1))"
  then show "occ_pre n b0 ch (s1\<lparr>paths := paths s1 @ [p]\<rparr>)" using assms(3) by (rule occ_pre_step)
next
  fix s s1
  assume a: "occ_pre n b0 ch s" "backtrack s = Some (Inr (None, s1))"
  then have "solve_inv ch s" by (simp add: occ_pre_def)
  from backtrack_len [OF a(2) this] a(1)
  show "\<forall>p \<in> set (paths s1). occupancy_ok n ch p" by (simp add: occ_pre_def)
qed

text \<open>
  C1. When the starting head is in the cube and every chain entry is positive, every
  path in the list that \<^verbatim>\<open>solve\<close> returns sweeps no cell twice and sweeps only
  cells whose three coordinates are in \<open>[0, cubesize)\<close>; and the base of each of its
  snapshots is among the cells swept.
\<close>

theorem occupancy:
  assumes "in_cube cs (base h)" "\<forall>c \<in> set ch. 0 < c"
    "solve (Backtrack_init ch cs h) = Some (Inr (ps, s'))"
  shows "\<forall>p \<in> set ps. distinct (swept_cells p ch) \<and> (\<forall>c \<in> set (swept_cells p ch). in_cube cs c)
           \<and> base ` set p \<subseteq> set (swept_cells p ch)"
proof -
  have "0 \<le> cs" using assms(1) by (simp add: in_cube_def)
  then have pre: "occ_pre cs (base h) ch (Backtrack_init ch cs h)"
    using assms(1) by (simp add: occ_pre_def solve_inv_def Backtrack_init_def wf_cube_replicate)
  have pos: "\<forall>c \<in> set ch. 1 \<le> c" using assms(2) by auto
  from assms(3) obtain "solve_loop (Backtrack_init ch cs h) = Some (Inr s')" "ps = paths s'"
    by (auto simp: solve_def Backtrack_init_def split: option.splits sum.splits)
  then show ?thesis using solve_loop_occ [OF _ pre pos] by (simp add: occupancy_ok_def)
qed

theorem occupancy_witness:
  "in_cube 2 (base (BacktrackHead_init (Vector3D 0 0 0) (Vector3D 1 0 0)))
   \<and> list_all (\<lambda>c. 0 < c) [1, 1 :: int]
   \<and> (\<exists>ps s'. solve (Backtrack_init [1, 1] 2 (BacktrackHead_init (Vector3D 0 0 0) (Vector3D 1 0 0)))
                 = Some (Inr (ps, s'))
        \<and> length ps = 2
        \<and> (\<forall>p \<in> set ps. distinct (swept_cells p [1, 1])
              \<and> (\<forall>c \<in> set (swept_cells p [1, 1]). in_cube 2 c)
              \<and> base ` set p \<subseteq> set (swept_cells p [1, 1])))"
proof -
  have a: "in_cube 2 (base (BacktrackHead_init (Vector3D 0 0 0) (Vector3D 1 0 0)))"
    by (simp add: in_cube_def BacktrackHead_init_def)
  have b: "\<forall>c \<in> set [1, 1 :: int]. 0 < c" by simp
  from returned_Inr [OF two_slices_run] obtain s' where
    r: "solve (Backtrack_init [1, 1] 2 (BacktrackHead_init (Vector3D 0 0 0) (Vector3D 1 0 0)))
        = Some (Inr ([[\<lparr>base = Vector3D 0 0 0, direction = Vector3D 1 0 0, old_direction = None\<rparr>,
       \<lparr>base = Vector3D 1 0 0, direction = Vector3D 0 1 0, old_direction = Some (Vector3D 1 0 0)\<rparr>],
      [\<lparr>base = Vector3D 0 0 0, direction = Vector3D 1 0 0, old_direction = None\<rparr>,
       \<lparr>base = Vector3D 1 0 0, direction = Vector3D 0 0 1, old_direction = Some (Vector3D 1 0 0)\<rparr>]], s'))"
    by blast
  from occupancy [OF a b r] a r show ?thesis by simp
qed

section \<open>A wrapped joint\<close>

lemma loop_body_wrapped:
  "cube_get_offset s 0 = Inr js \<Longrightarrow> joint_wrapped js \<Longrightarrow>
     loop_body s path = Some (joint_wrapped_around s path)"
  by (simp add: loop_body_def)

lemma back_up_effect:
  assumes wf: "wf_cube n (cube s)"
    and nd: "getitem (chain s) (pos s - 1) = Inr nd"
    and inb: "in_cube n (base h)"
    and inc: "\<forall>k. 1 \<le> k \<and> k \<le> nd \<longrightarrow> in_cube n (point h k)"
    and dir: "direction h \<in> set baseDirections"
    and od: "old_direction h = Some od" "dict_get jointDirections od = Inr ds"
  shows "\<exists>s'. back_up s (path' @ [h]) = Inr (s', path')
           \<and> pos s' = pos s - 1
           \<and> head s' = h\<lparr>direction := ds ! nat ((cell (cube s) (base h) + 1) mod N_JNTS)\<rparr>
           \<and> wf_cube n (cube s')
           \<and> (\<forall>q. in_cube n q \<longrightarrow> cell (cube s') q =
                 (if q = base h then cell (cube s) (base h) + 1
                  else if q \<in> point h ` {1..nd} then POS_FREE
                  else cell (cube s) q))
           \<and> chain s' = chain s \<and> cubesize s' = cubesize s \<and> chainlength s' = chainlength s
           \<and> paths s' = paths s"
proof -
  let ?s2 = "s\<lparr>pos := pos s - 1, head := h\<rparr>"
  let ?st = "cell (cube s) (base h)"
  let ?k = "(?st + 1) mod N_JNTS"
  have "\<forall>k \<in> set [1..nd]. in_cube n (point (head ?s2) k)" using inc by simp
  from cube_set_offsets_in [of n ?s2 "[1..nd]" POS_FREE] wf this obtain c3 where
    c3: "cube_set_offsets ?s2 [1..nd] POS_FREE = Inr (?s2\<lparr>cube := c3\<rparr>)" "wf_cube n c3"
    "\<forall>q. in_cube n q \<longrightarrow> cell c3 q = (if q \<in> point h ` set [1..nd] then POS_FREE else cell (cube s) q)"
    by auto
  have notin: "base h \<notin> point h ` set [1..nd]"
  proof
    assume "base h \<in> point h ` set [1..nd]"
    then obtain k where "point h 0 = point h k" "1 \<le> k" by auto
    with point_inj [OF dir] show False by fastforce
  qed
  then have st: "cell c3 (base h) = ?st" using c3(3) inb by simp
  have g: "cube_get_offset (?s2\<lparr>cube := c3\<rparr>) 0 = Inr ?st"
    using cube_get_offset_in [of n "?s2\<lparr>cube := c3\<rparr>" 0] c3(2) inb st by simp
  have k: "0 \<le> ?k" "?k < 5" by (simp_all add: N_JNTS_def)
  have r: "rotate_to h ?k = Inr (h\<lparr>direction := ds ! nat ?k\<rparr>)"
    using od k jointDirections_length [OF od(2)] by (simp add: rotate_to_def getitem_in)
  let ?s' = "?s2\<lparr>head := h\<lparr>direction := ds ! nat ?k\<rparr>, cube := cube_upd c3 (base h) (?st + 1)\<rparr>"
  have w: "cube_set_offset (?s2\<lparr>cube := c3, head := h\<lparr>direction := ds ! nat ?k\<rparr>\<rparr>) 0 (?st + 1) = Inr ?s'"
    using cube_set_offset_in [of n "?s2\<lparr>cube := c3, head := h\<lparr>direction := ds ! nat ?k\<rparr>\<rparr>" 0 "?st + 1"]
      c3(2) inb by simp
  have "back_up s (path' @ [h]) = Inr (?s', path')"
    using nd c3(1) g r w by (simp add: back_up_def pop_def Let_def)
  moreover have "\<forall>q. in_cube n q \<longrightarrow> cell (cube ?s') q =
                 (if q = base h then ?st + 1
                  else if q \<in> point h ` {1..nd} then POS_FREE
                  else cell (cube s) q)"
    using c3(3) cell_cube_upd [OF c3(2) inb] by simp
  moreover have "wf_cube n (cube ?s')" using c3(2) inb by (simp add: wf_cube_upd)
  ultimately show ?thesis by (intro exI [of _ ?s']) simp
qed

text \<open>
  C4. When the joint state read at the head is 4 or more, a round of the loop returns
  the signal "no more solutions" exactly when the progress counter is 1. When it is
  not 1, the path ends in a snapshot \<open>h\<close> whose slice lies in the cube (of size \<open>n\<close>)
  and \<open>h\<close> has turned before: the round goes on with the path without \<open>h\<close>, the
  counter one less, the head at \<open>h\<close> turned to entry \<open>(state + 1) mod 4\<close> of the
  table for the direction before the turn, where \<open>state\<close> is the value in the cell of
  \<open>h\<close>; that cell holds \<open>state + 1\<close>, the cells of the slice of \<open>h\<close> at the offsets
  1 to the chain entry are free, and all other cells are as before.
\<close>

theorem wrapped_joint:
  assumes "cube_get_offset s 0 = Inr js" "joint_wrapped js"
  shows "((\<exists>s1. loop_body s path = Some (Inr (Exhausted s1))) = (pos s = 1))
       \<and> (pos s \<noteq> 1 \<and> path = path' @ [h] \<and> wf_cube n (cube s)
            \<and> getitem (chain s) (pos s - 1) = Inr nd
            \<and> in_cube n (base h)
            \<and> (\<forall>k. 1 \<le> k \<and> k \<le> nd \<longrightarrow> in_cube n (point h k))
            \<and> direction h \<in> set baseDirections
            \<and> old_direction h = Some od \<and> dict_get jointDirections od = Inr ds
          \<longrightarrow> (\<exists>s'. loop_body s path = Some (Inr (Continue s' path'))
                 \<and> pos s' = pos s - 1
                 \<and> head s' = h\<lparr>direction := ds ! nat ((cell (cube s) (base h) + 1) mod N_JNTS)\<rparr>
                 \<and> (\<forall>q. in_cube n q \<longrightarrow> cell (cube s') q =
                       (if q = base h then cell (cube s) (base h) + 1
                        else if q \<in> point h ` {1..nd} then POS_FREE
                        else cell (cube s) q))))"
proof -
  have lb: "loop_body s path = Some (joint_wrapped_around s path)"
    using assms by (rule loop_body_wrapped)
  have "(\<exists>s1. loop_body s path = Some (Inr (Exhausted s1))) = (pos s = 1)"
    unfolding lb by (auto simp: joint_wrapped_around_def split: sum.splits)
  moreover have "\<exists>s'. loop_body s path = Some (Inr (Continue s' path'))
                 \<and> pos s' = pos s - 1
                 \<and> head s' = h\<lparr>direction := ds ! nat ((cell (cube s) (base h) + 1) mod N_JNTS)\<rparr>
                 \<and> (\<forall>q. in_cube n q \<longrightarrow> cell (cube s') q =
                       (if q = base h then cell (cube s) (base h) + 1
                        else if q \<in> point h ` {1..nd} then POS_FREE
                        else cell (cube s) q))"
    if h: "pos s \<noteq> 1" "path = path' @ [h]" "wf_cube n (cube s)"
      "getitem (chain s) (pos s - 1) = Inr nd"
      "in_cube n (base h)"
      "\<forall>k. 1 \<le> k \<and> k \<le> nd \<longrightarrow> in_cube n (point h k)"
      "direction h \<in> set baseDirections"
      "old_direction h = Some od" "dict_get jointDirections od = Inr ds"
  proof -
    from back_up_effect [OF h(3,4,5,6,7,8,9), of path'] obtain s' where
      "back_up s (path' @ [h]) = Inr (s', path')" "pos s' = pos s - 1"
      "head s' = h\<lparr>direction := ds ! nat ((cell (cube s) (base h) + 1) mod N_JNTS)\<rparr>"
      "\<forall>q. in_cube n q \<longrightarrow> cell (cube s') q =
                 (if q = base h then cell (cube s) (base h) + 1
                  else if q \<in> point h ` {1..nd} then POS_FREE
                  else cell (cube s) q)"
      by blast
    then show ?thesis
      unfolding lb using h(1,2) by (intro exI [of _ s']) (simp add: joint_wrapped_around_def)
  qed
  ultimately show ?thesis by blast
qed

text \<open>The hypotheses hold in the engine \<open>wrapped_engine\<close>, at progress 2, which the
  search reaches after six rounds of its first run.\<close>

lemma wrapped_engine_reached:
  "(case cube_set_offset
           (Backtrack_init [1, 1, 2] 2 (BacktrackHead_init (Vector3D 0 0 0) (Vector3D 1 0 0)))
           0 POS_USED of
      Inl e \<Rightarrow> None
    | Inr s0 \<Rightarrow> rounds 6 s0 [])
   = Some (wrapped_engine, wrapped_path)"
  by code_simp

theorem wrapped_joint_witness:
  "cube_get_offset wrapped_engine 0 = Inr 4 \<and> joint_wrapped 4
   \<and> pos wrapped_engine \<noteq> 1 \<and> wrapped_path = [hd wrapped_path] @ [last wrapped_path]
   \<and> wf_cube 2 (cube wrapped_engine)
   \<and> getitem (chain wrapped_engine) (pos wrapped_engine - 1) = Inr 1
   \<and> in_cube 2 (base (last wrapped_path))
   \<and> in_cube 2 (point (last wrapped_path) 1)
   \<and> direction (last wrapped_path) \<in> set baseDirections
   \<and> old_direction (last wrapped_path) = Some (Vector3D 1 0 0)
   \<and> dict_get jointDirections (Vector3D 1 0 0)
       = Inr [Vector3D 0 1 0, Vector3D 0 0 1, Vector3D 0 (-1) 0, Vector3D 0 0 (-1), Vector3D 0 1 0]
   \<and> (\<exists>s'. loop_body wrapped_engine wrapped_path = Some (Inr (Continue s' [hd wrapped_path]))
          \<and> pos s' = 1
          \<and> head s' = \<lparr>base = Vector3D 1 0 0, direction = Vector3D 0 0 1,
                         old_direction = Some (Vector3D 1 0 0)\<rparr>
          \<and> cell (cube s') (Vector3D 1 0 0) = 1
          \<and> cell (cube s') (Vector3D 1 1 0) = POS_FREE
          \<and> cell (cube s') (Vector3D 0 0 0) = POS_USED)"
proof -
  let ?h = "last wrapped_path"
  let ?ds = "[Vector3D 0 1 0, Vector3D 0 0 1, Vector3D 0 (-1) 0, Vector3D 0 0 (-1), Vector3D 0 1 0]"
  have a: "cube_get_offset wrapped_engine 0 = Inr 4"
    by (simp add: wrapped_engine_def cube_get_offset_def add_def rmul_def getitem_def)
  have b: "joint_wrapped 4" by (simp add: joint_wrapped_def N_JNTS_def)
  have c: "pos wrapped_engine \<noteq> 1" "wrapped_path = [hd wrapped_path] @ [?h]"
    "wf_cube 2 (cube wrapped_engine)"
    "getitem (chain wrapped_engine) (pos wrapped_engine - 1) = Inr 1"
    "in_cube 2 (base ?h)"
    "direction ?h \<in> set baseDirections"
    "old_direction ?h = Some (Vector3D 1 0 0)"
    "dict_get jointDirections (Vector3D 1 0 0) = Inr ?ds"
    by (simp_all add: wrapped_engine_def wrapped_path_def wf_cube_def getitem_def in_cube_def
        baseDirections_def jointDirections_value dict_get_def)
  have d: "\<forall>k. 1 \<le> k \<and> k \<le> 1 \<longrightarrow> in_cube 2 (point ?h k)"
  proof (intro allI impI)
    fix k :: int assume "1 \<le> k \<and> k \<le> 1"
    then have "k = 1" by arith
    then show "in_cube 2 (point ?h k)" by (simp add: wrapped_path_def in_cube_def)
  qed
  from wrapped_joint [OF a b, where path = wrapped_path and path' = "[hd wrapped_path]"
      and h = ?h and n = 2 and nd = 1 and od = "Vector3D 1 0 0" and ds = ?ds] c d
  obtain s' where s':
    "loop_body wrapped_engine wrapped_path = Some (Inr (Continue s' [hd wrapped_path]))"
    "pos s' = pos wrapped_engine - 1"
    "head s' = ?h\<lparr>direction := ?ds ! nat ((cell (cube wrapped_engine) (base ?h) + 1) mod N_JNTS)\<rparr>"
    "\<forall>q. in_cube 2 q \<longrightarrow> cell (cube s') q =
        (if q = base ?h then cell (cube wrapped_engine) (base ?h) + 1
         else if q \<in> point ?h ` {1..1} then POS_FREE
         else cell (cube wrapped_engine) q)"
    by blast
  have e: "cell (cube wrapped_engine) (base ?h) = 0"
    "cell (cube wrapped_engine) (Vector3D 0 0 0) = POS_USED"
    "point ?h 1 = Vector3D 1 1 0" "base ?h = Vector3D 1 0 0"
    by (simp_all add: wrapped_engine_def wrapped_path_def cell_def POS_USED_def vec_eq_iff)
  have "cell (cube s') (Vector3D 1 0 0) = 1" "cell (cube s') (Vector3D 1 1 0) = POS_FREE"
    "cell (cube s') (Vector3D 0 0 0) = POS_USED"
    using s'(4) [rule_format, of "Vector3D 1 0 0"] s'(4) [rule_format, of "Vector3D 1 1 0"]
      s'(4) [rule_format, of "Vector3D 0 0 0"] e
    by (simp_all add: in_cube_def)
  moreover have "pos s' = 1" using s'(2) by (simp add: wrapped_engine_def)
  moreover have "head s' = \<lparr>base = Vector3D 1 0 0, direction = Vector3D 0 0 1,
                         old_direction = Some (Vector3D 1 0 0)\<rparr>"
    using s'(3) e(1) by (simp add: wrapped_path_def N_JNTS_def)
  moreover have "in_cube 2 (point ?h 1)" using d by simp
  ultimately show ?thesis using a b c s'(1) by blast
qed

text \<open>
  At progress 1 the joint is not popped: with chain [1, 2] in the cube of size 2 the
  search ends in a state with the counter at 1 and the joint at 4, and there the round
  returns the signal.
\<close>

theorem wrapped_joint_at_progress_1:
  "solve_loop (Backtrack_init [1, 2] 2 (BacktrackHead_init (Vector3D 0 0 0) (Vector3D 1 0 0)))
     = Some (Inr
         \<lparr>chain = [1, 2], cubesize = 2,
          head = \<lparr>base = Vector3D 1 0 0, direction = Vector3D 0 1 0,
                   old_direction = Some (Vector3D 1 0 0)\<rparr>,
          pos = 1, chainlength = 2,
          cube = [[[-1, -2], [-2, -2]], [[4, -2], [-2, -2]]],
          paths = []\<rparr>)
   \<and> cube_get_offset
         \<lparr>chain = [1, 2], cubesize = 2,
          head = \<lparr>base = Vector3D 1 0 0, direction = Vector3D 0 1 0,
                   old_direction = Some (Vector3D 1 0 0)\<rparr>,
          pos = 1, chainlength = 2,
          cube = [[[-1, -2], [-2, -2]], [[4, -2], [-2, -2]]],
          paths = []\<rparr> 0 = Inr 4
   \<and> loop_body
         \<lparr>chain = [1, 2], cubesize = 2,
          head = \<lparr>base = Vector3D 1 0 0, direction = Vector3D 0 1 0,
                   old_direction = Some (Vector3D 1 0 0)\<rparr>,
          pos = 1, chainlength = 2,
          cube = [[[-1, -2], [-2, -2]], [[4, -2], [-2, -2]]],
          paths = []\<rparr>
         [\<lparr>base = Vector3D 0 0 0, direction = Vector3D 1 0 0, old_direction = None\<rparr>]
     = Some (Inr (Exhausted
         \<lparr>chain = [1, 2], cubesize = 2,
          head = \<lparr>base = Vector3D 1 0 0, direction = Vector3D 0 1 0,
                   old_direction = Some (Vector3D 1 0 0)\<rparr>,
          pos = 1, chainlength = 2,
          cube = [[[-1, -2], [-2, -2]], [[4, -2], [-2, -2]]],
          paths = []\<rparr>))"
  by code_simp

section \<open>The reference puzzle\<close>

lemma reference_run:
  "map_option (map_sum id (map (map (\<lambda>h. to_list (base h)))))
     (returned (solve (Backtrack_init reference_chain 3
        (BacktrackHead_init (Vector3D 0 0 0) (Vector3D 1 0 0)))))
   = Some (Inr
      [[[0, 0, 0], [2, 0, 0], [2, 1, 0], [1, 1, 0], [1, 1, 2], [1, 2, 2],
        [1, 2, 0], [2, 2, 0], [2, 2, 1], [2, 0, 1], [0, 0, 1], [0, 1, 1],
        [0, 1, 0], [0, 2, 0], [0, 2, 2], [0, 0, 2], [2, 0, 2]],
       [[0, 0, 0], [2, 0, 0], [2, 0, 1], [1, 0, 1], [1, 2, 1], [1, 2, 2],
        [1, 0, 2], [2, 0, 2], [2, 1, 2], [2, 1, 0], [0, 1, 0], [0, 1, 1],
        [0, 0, 1], [0, 0, 2], [0, 2, 2], [0, 2, 0], [2, 2, 0]]])"
  by code_simp

lemma similar_value: "similar (Vector3D a b c) = Inr [a, c, b]"
  by (simp add: similar_def mirror_yz_def rotx_def rotz_def multiply_3x3 to_list_def)

lemma similar_to_list: "similar v = Inr [vx v, vz v, vy v]"
  by (cases v) (simp add: similar_value)

text \<open>
  C6. For the chain of the demonstration in the cube of size 3, from (0,0,0) along x,
  \<^verbatim>\<open>solve\<close> returns exactly two solutions, and the base points of the second are,
  one by one, the base points of the first mirrored at the yz-plane, rotated by 90
  degrees about the x-axis and by 180 degrees about the z-axis.
\<close>

theorem reference_puzzle:
  "\<exists>p0 p1 s'.
     solve (Backtrack_init reference_chain 3 (BacktrackHead_init (Vector3D 0 0 0) (Vector3D 1 0 0)))
       = Some (Inr ([p0, p1], s'))
     \<and> map (\<lambda>h. Inr (to_list (base h))) p1 = map (\<lambda>h. similar (base h)) p0"
proof -
  let ?r = "solve (Backtrack_init reference_chain 3 (BacktrackHead_init (Vector3D 0 0 0) (Vector3D 1 0 0)))"
  from reference_run obtain ps where
    ps: "returned ?r = Some (Inr ps)"
    and bs: "map (map (\<lambda>h. to_list (base h))) ps =
      [[[0, 0, 0], [2, 0, 0], [2, 1, 0], [1, 1, 0], [1, 1, 2], [1, 2, 2],
        [1, 2, 0], [2, 2, 0], [2, 2, 1], [2, 0, 1], [0, 0, 1], [0, 1, 1],
        [0, 1, 0], [0, 2, 0], [0, 2, 2], [0, 0, 2], [2, 0, 2]],
       [[0, 0, 0], [2, 0, 0], [2, 0, 1], [1, 0, 1], [1, 2, 1], [1, 2, 2],
        [1, 0, 2], [2, 0, 2], [2, 1, 2], [2, 1, 0], [0, 1, 0], [0, 1, 1],
        [0, 0, 1], [0, 0, 2], [0, 2, 2], [0, 2, 0], [2, 2, 0]]]"
    by (cases "returned ?r") (auto simp: map_sum_def split: sum.splits)
  from bs obtain p0 p1 where p: "ps = [p0, p1]"
    and b0: "map (\<lambda>h. to_list (base h)) p0 =
       [[0, 0, 0], [2, 0, 0], [2, 1, 0], [1, 1, 0], [1, 1, 2], [1, 2, 2],
        [1, 2, 0], [2, 2, 0], [2, 2, 1], [2, 0, 1], [0, 0, 1], [0, 1, 1],
        [0, 1, 0], [0, 2, 0], [0, 2, 2], [0, 0, 2], [2, 0, 2]]"
    and b1: "map (\<lambda>h. to_list (base h)) p1 =
       [[0, 0, 0], [2, 0, 0], [2, 0, 1], [1, 0, 1], [1, 2, 1], [1, 2, 2],
        [1, 0, 2], [2, 0, 2], [2, 1, 2], [2, 1, 0], [0, 1, 0], [0, 1, 1],
        [0, 0, 1], [0, 0, 2], [0, 2, 2], [0, 2, 0], [2, 2, 0]]"
    by (auto simp: map_eq_Cons_conv)
  have sw: "map (\<lambda>h. similar (base h)) p0
      = map (\<lambda>l. Inr [l ! 0, l ! 2, l ! 1]) (map (\<lambda>h. to_list (base h)) p0)"
    by (simp add: similar_to_list to_list_def)
  have "map (\<lambda>h. Inr (to_list (base h))) p1 = map Inr (map (\<lambda>h. to_list (base h)) p1)"
    by simp
  also have "\<dots> = map (\<lambda>h. similar (base h)) p0"
    unfolding sw b0 b1 by simp
  finally have "map (\<lambda>h. Inr (to_list (base h))) p1 = map (\<lambda>h. similar (base h)) p0" .
  moreover from returned_Inr [OF ps] p obtain s' where "?r = Some (Inr ([p0, p1], s'))" by blast
  ultimately show ?thesis by blast
qed

end
